theory Spec2Isabelle
  imports Complex_Main "HOL-Library.Word"
begin

unbundle bit_operations_syntax

section \<open>The box tree\<close>

text \<open>
  The traversal builder of \<^verbatim>\<open>boxtree/traversal.py\<close> reads a tree of boxes that
  is stored as flat arrays. Box ids, levels and indices are natural numbers. The
  coordinate type \<^verbatim>\<open>coord_t\<close> is a binary floating point type in the source; box
  centres and box sizes are dyadic numbers, and the model computes with them exactly, as
  rationals.

  Modelled from the spec: the bit values of \<^verbatim>\<open>box_flags_enum\<close> are declared in
  \<^verbatim>\<open>boxtree.tree\<close>, which is not among the sources. A flag word is the list of the
  flags that are set in it, and \<^verbatim>\<open>flags & BOX_HAS_X\<close> is membership.
\<close>

datatype box_flag =
  BOX_HAS_OWN_SOURCES | BOX_HAS_OWN_TARGETS | BOX_HAS_CHILD_SOURCES
  | BOX_HAS_CHILD_TARGETS | BOX_HAS_CHILDREN

record tree =
  dimensions :: nat
  coord_dtype :: string
  nboxes :: nat
  nlevels :: nat
  aligned_nboxes :: nat
  root_extent :: rat
  box_centers :: "rat list"
  box_levels :: "nat list"
  box_parent_ids :: "nat list"
  box_child_ids :: "nat list"
  box_flags :: "box_flag list list"
  level_start_box_nrs :: "nat list"
  sources_are_targets :: bool
  is_pruned :: bool

definition has_flag :: "tree \<Rightarrow> nat \<Rightarrow> box_flag \<Rightarrow> bool" where
  "has_flag t box_id f = (f \<in> set (box_flags t ! box_id))"

section \<open>Preamble: centres and box sizes\<close>

text \<open>
  \<^verbatim>\<open>load_center(name, box_id)\<close> reads one coordinate per axis from the
  axis-major array \<^verbatim>\<open>box_centers\<close>.
\<close>

definition load_center :: "tree \<Rightarrow> nat \<Rightarrow> rat list" where
  "load_center t box_id =
     map (\<lambda>i. box_centers t ! (aligned_nboxes t * i + box_id)) [0..<dimensions t]"

text \<open>
  \<^verbatim>\<open>#define LEVEL_TO_SIZE(level) (root_extent * 1 / (coord_t) (1 << level))\<close>.
  The shift is a shift of the 32-bit \<^verbatim>\<open>int\<close> constant 1: OpenCL C takes the shift
  count modulo 32, and the result is read as a signed number before the conversion to
  \<^verbatim>\<open>coord_t\<close>.
\<close>

definition LEVEL_TO_SIZE :: "tree \<Rightarrow> nat \<Rightarrow> rat" where
  "LEVEL_TO_SIZE t level =
     root_extent t * 1 / of_int (sint (push_bit (level mod 32) (1 :: 32 word)))"

section \<open>The adjacency test\<close>

definition is_adjacent_or_overlapping :: "tree \<Rightarrow> rat list \<Rightarrow> nat \<Rightarrow> nat \<Rightarrow> bool" where
  "is_adjacent_or_overlapping t center level other_box_id =
     (let other_center = load_center t other_box_id;
          other_level = box_levels t ! other_box_id;
          size_sum = 1 / 2 * (LEVEL_TO_SIZE t level + LEVEL_TO_SIZE t other_level);
          slack = size_sum + 1 / 2 * LEVEL_TO_SIZE t (max level other_level);
          max_dist = foldl (\<lambda>max_dist i. max max_dist \<bar>center ! i - other_center ! i\<bar>)
                       0 [0..<dimensions t]
      in max_dist \<le> slack)"

text \<open>The test of one box of the tree against another.\<close>

definition adjacent :: "tree \<Rightarrow> nat \<Rightarrow> nat \<Rightarrow> bool" where
  "adjacent t a b = is_adjacent_or_overlapping t (load_center t a) (box_levels t ! a) b"

subsection \<open>The adjacency formula of the specification\<close>

text \<open>
  The specification's side of the comparison: the size of a box at a level, the distance
  of two centres in the maximum norm, and the bound on it.
\<close>

definition spec_size :: "tree \<Rightarrow> nat \<Rightarrow> rat" where
  "spec_size t l = root_extent t / 2 ^ l"

definition linf_dist :: "tree \<Rightarrow> nat \<Rightarrow> nat \<Rightarrow> rat" where
  "linf_dist t a b =
     Max ((\<lambda>i. \<bar>load_center t a ! i - load_center t b ! i\<bar>) ` {0..<dimensions t})"

definition spec_adjacent :: "tree \<Rightarrow> nat \<Rightarrow> nat \<Rightarrow> bool" where
  "spec_adjacent t a b =
     (linf_dist t a b
        \<le> 1 / 2 * (spec_size t (box_levels t ! a) + spec_size t (box_levels t ! b))
          + 1 / 2 * spec_size t (max (box_levels t ! a) (box_levels t ! b)))"

section \<open>The tree walk\<close>

text \<open>
  \<^verbatim>\<open>walk_init\<close>, \<open>walk_push\<close> and \<open>walk_advance\<close> keep the path from the
  start box to the current box in the arrays \<^verbatim>\<open>box_stack\<close> and
  \<^verbatim>\<open>morton_nr_stack\<close>, of which the entries below \<^verbatim>\<open>walk_level\<close> are live.
  The model keeps the live entries as a list of pairs, the top of the stack first;
  \<^verbatim>\<open>walk_level\<close> is the length of that list.

  \<^verbatim>\<open>walk_advance\<close> moves to the next child slot, popping the stack as long as
  the slots of the current box are used up. \<open>None\<close> is \<^verbatim>\<open>continue_walk = false\<close>.
\<close>

fun walk_advance ::
  "tree \<Rightarrow> (nat \<times> nat) list \<Rightarrow> nat \<Rightarrow> nat \<Rightarrow> ((nat \<times> nat) list \<times> nat \<times> nat) option" where
  "walk_advance t stack walk_box_id walk_morton_nr =
     (if walk_morton_nr + 1 < 2 ^ dimensions t
      then Some (stack, walk_box_id, walk_morton_nr + 1)
      else (case stack of
              [] \<Rightarrow> None
            | (b, m) # stack' \<Rightarrow> walk_advance t stack' b m))"

declare walk_advance.simps [simp del]

section \<open>Sources, their parents, and targets\<close>

text \<open>
  One call of \<^verbatim>\<open>generate\<close> of \<^verbatim>\<open>SOURCES_PARENTS_AND_TARGETS_TEMPLATE\<close>: what
  it appends to \<^verbatim>\<open>source_boxes\<close>, to \<^verbatim>\<open>source_parent_boxes\<close> and to
  \<^verbatim>\<open>target_boxes\<close>. With \<^verbatim>\<open>sources_are_targets\<close> the kernel has no third list.
\<close>

definition generate_source_boxes :: "tree \<Rightarrow> nat \<Rightarrow> nat list" where
  "generate_source_boxes t box_id =
     (if has_flag t box_id BOX_HAS_OWN_SOURCES then [box_id] else [])"

definition generate_source_parent_boxes :: "tree \<Rightarrow> nat \<Rightarrow> nat list" where
  "generate_source_parent_boxes t box_id =
     (if has_flag t box_id BOX_HAS_CHILD_SOURCES then [box_id] else [])"

definition generate_target_boxes :: "tree \<Rightarrow> nat \<Rightarrow> nat list" where
  "generate_target_boxes t box_id =
     (if has_flag t box_id BOX_HAS_OWN_TARGETS then [box_id] else [])"

section \<open>Level starts of a box list\<close>

text \<open>
  The operation of \<^verbatim>\<open>LEVEL_START_BOX_NR_EXTRACTOR_TEMPLATE\<close> at index \<open>i\<close>, and
  \<^verbatim>\<open>extract_level_start_box_nrs\<close> of the driver: the kernel runs over the range
  \<^verbatim>\<open>slice(1, len(box_list))\<close>, then entry 0 is set and the unoccupied levels are
  filled from the top level down.
\<close>

definition level_start_box_nr_extractor ::
  "tree \<Rightarrow> nat list \<Rightarrow> nat list \<Rightarrow> nat \<Rightarrow> nat list" where
  "level_start_box_nr_extractor t box_list list_level_start_box_nrs i =
     (let my_box_id = box_list ! i;
          prev_box_id = box_list ! (i - 1);
          my_level = box_levels t ! my_box_id;
          my_level_start = level_start_box_nrs t ! my_level
      in if prev_box_id < my_level_start \<and> my_level_start \<le> my_box_id
         then list_level_start_box_nrs[my_level := i]
         else list_level_start_box_nrs)"

definition postprocess_level :: "nat list \<times> nat \<Rightarrow> nat \<Rightarrow> nat list \<times> nat" where
  "postprocess_level rp ilev =
     (let prev_start = min (fst rp ! ilev) (snd rp) in ((fst rp)[ilev := prev_start], prev_start))"

definition extract_level_start_box_nrs :: "tree \<Rightarrow> nat list \<Rightarrow> nat list" where
  "extract_level_start_box_nrs t box_list =
     (let result = replicate (nlevels t + 1) (length box_list);
          result = foldl (level_start_box_nr_extractor t box_list) result
                     [1..<length box_list];
          result = result[0 := 0]
      in fst (foldl postprocess_level (result, length box_list) (rev [0..<nlevels t])))"

section \<open>Colleagues\<close>

text \<open>
  The loop of \<^verbatim>\<open>COLLEAGUES_TEMPLATE\<close>. A loop that does not end has no result
  (\<open>None\<close>).
\<close>

partial_function (option) colleagues_walk ::
  "tree \<Rightarrow> rat list \<Rightarrow> nat \<Rightarrow> nat \<Rightarrow> (nat \<times> nat) list \<Rightarrow> nat \<Rightarrow> nat \<Rightarrow> nat list
     \<Rightarrow> nat list option" where
  "colleagues_walk t center level box_id stack walk_box_id walk_morton_nr out =
     (let child_box_id = box_child_ids t ! (walk_morton_nr * aligned_nboxes t + walk_box_id)
      in
        if child_box_id \<noteq> 0 then
          if is_adjacent_or_overlapping t center level child_box_id then
            if length stack + 1 = level \<and> child_box_id \<noteq> box_id then
              (case walk_advance t stack walk_box_id walk_morton_nr of
                 None \<Rightarrow> Some (out @ [child_box_id])
               | Some (stack', b, m) \<Rightarrow>
                   colleagues_walk t center level box_id stack' b m (out @ [child_box_id]))
            else
              colleagues_walk t center level box_id
                ((walk_box_id, walk_morton_nr) # stack) child_box_id 0 out
          else
            (case walk_advance t stack walk_box_id walk_morton_nr of
               None \<Rightarrow> Some out
             | Some (stack', b, m) \<Rightarrow> colleagues_walk t center level box_id stack' b m out)
        else
          (case walk_advance t stack walk_box_id walk_morton_nr of
             None \<Rightarrow> Some out
           | Some (stack', b, m) \<Rightarrow> colleagues_walk t center level box_id stack' b m out))"

declare colleagues_walk.simps [code]

definition colleagues_generate :: "tree \<Rightarrow> nat \<Rightarrow> nat list option" where
  "colleagues_generate t box_id =
     (let center = load_center t box_id
      in if box_id = 0 then Some []
         else (let level = box_levels t ! box_id
               in colleagues_walk t center level box_id [] 0 0 []))"

section \<open>Neighbor source boxes (list 1)\<close>

partial_function (option) neighbor_source_boxes_walk ::
  "tree \<Rightarrow> rat list \<Rightarrow> nat \<Rightarrow> (nat \<times> nat) list \<Rightarrow> nat \<Rightarrow> nat \<Rightarrow> nat list
     \<Rightarrow> nat list option" where
  "neighbor_source_boxes_walk t center level stack walk_box_id walk_morton_nr out =
     (let child_box_id = box_child_ids t ! (walk_morton_nr * aligned_nboxes t + walk_box_id)
      in
        if child_box_id \<noteq> 0 then
          if is_adjacent_or_overlapping t center level child_box_id then
            (let out' = (if has_flag t child_box_id BOX_HAS_OWN_SOURCES
                         then out @ [child_box_id] else out)
             in if has_flag t child_box_id BOX_HAS_CHILD_SOURCES then
                  neighbor_source_boxes_walk t center level
                    ((walk_box_id, walk_morton_nr) # stack) child_box_id 0 out'
                else
                  (case walk_advance t stack walk_box_id walk_morton_nr of
                     None \<Rightarrow> Some out'
                   | Some (stack', b, m) \<Rightarrow>
                       neighbor_source_boxes_walk t center level stack' b m out'))
          else
            (case walk_advance t stack walk_box_id walk_morton_nr of
               None \<Rightarrow> Some out
             | Some (stack', b, m) \<Rightarrow> neighbor_source_boxes_walk t center level stack' b m out)
        else
          (case walk_advance t stack walk_box_id walk_morton_nr of
             None \<Rightarrow> Some out
           | Some (stack', b, m) \<Rightarrow> neighbor_source_boxes_walk t center level stack' b m out))"

declare neighbor_source_boxes_walk.simps [code]

definition neighbor_source_boxes_generate :: "tree \<Rightarrow> nat list \<Rightarrow> nat \<Rightarrow> nat list option" where
  "neighbor_source_boxes_generate t target_boxes target_box_number =
     (let box_id = target_boxes ! target_box_number;
          center = load_center t box_id;
          level = box_levels t ! box_id
      in neighbor_source_boxes_walk t center level [] 0 0 [])"

section \<open>Well-separated siblings (list 2)\<close>

text \<open>
  The two nested \<^verbatim>\<open>for\<close> loops of \<^verbatim>\<open>SEP_SIBLINGS_TEMPLATE\<close>: the outer one over
  the indices of the parent's colleagues in \<^verbatim>\<open>colleagues_list\<close>, the inner one over
  the child slots of one colleague. Each round appends to the output.
\<close>

definition sep_siblings_of_colleague :: "tree \<Rightarrow> rat list \<Rightarrow> nat \<Rightarrow> nat \<Rightarrow> nat list" where
  "sep_siblings_of_colleague t center level parent_colleague =
     concat (map (\<lambda>morton_nr.
         (let sib_box_id = box_child_ids t ! (morton_nr * aligned_nboxes t + parent_colleague);
              sep = \<not> is_adjacent_or_overlapping t center level sib_box_id
          in if sep then [sib_box_id] else []))
       [0..<2 ^ dimensions t])"

definition sep_siblings_generate :: "tree \<Rightarrow> nat list \<Rightarrow> nat list \<Rightarrow> nat \<Rightarrow> nat list" where
  "sep_siblings_generate t colleagues_starts colleagues_list box_id =
     (let center = load_center t box_id;
          level = box_levels t ! box_id;
          parent = box_parent_ids t ! box_id
      in if parent = box_id then []
         else (let parent_coll_start = colleagues_starts ! parent;
                   parent_coll_stop = colleagues_starts ! (parent + 1)
               in concat (map (\<lambda>i. sep_siblings_of_colleague t center level (colleagues_list ! i))
                            [parent_coll_start..<parent_coll_stop])))"

section \<open>Separated smaller non-siblings (list 3)\<close>

partial_function (option) sep_smaller_nonsiblings_walk ::
  "tree \<Rightarrow> rat list \<Rightarrow> nat \<Rightarrow> (nat \<times> nat) list \<Rightarrow> nat \<Rightarrow> nat \<Rightarrow> nat list
     \<Rightarrow> nat list option" where
  "sep_smaller_nonsiblings_walk t center level stack walk_box_id walk_morton_nr out =
     (let child_box_id = box_child_ids t ! (walk_morton_nr * aligned_nboxes t + walk_box_id)
      in
        if child_box_id \<noteq> 0 then
          if is_adjacent_or_overlapping t center level child_box_id then
            if has_flag t child_box_id BOX_HAS_CHILDREN then
              sep_smaller_nonsiblings_walk t center level
                ((walk_box_id, walk_morton_nr) # stack) child_box_id 0 out
            else
              (case walk_advance t stack walk_box_id walk_morton_nr of
                 None \<Rightarrow> Some out
               | Some (stack', b, m) \<Rightarrow>
                   sep_smaller_nonsiblings_walk t center level stack' b m out)
          else
            (case walk_advance t stack walk_box_id walk_morton_nr of
               None \<Rightarrow> Some (out @ [child_box_id])
             | Some (stack', b, m) \<Rightarrow>
                 sep_smaller_nonsiblings_walk t center level stack' b m (out @ [child_box_id]))
        else
          (case walk_advance t stack walk_box_id walk_morton_nr of
             None \<Rightarrow> Some out
           | Some (stack', b, m) \<Rightarrow> sep_smaller_nonsiblings_walk t center level stack' b m out))"

declare sep_smaller_nonsiblings_walk.simps [code]

fun sep_smaller_nonsiblings_colleagues ::
  "tree \<Rightarrow> rat list \<Rightarrow> nat \<Rightarrow> nat list \<Rightarrow> nat list \<Rightarrow> nat list option" where
  "sep_smaller_nonsiblings_colleagues t center level [] out = Some out"
| "sep_smaller_nonsiblings_colleagues t center level (colleague # cs) out =
     (case sep_smaller_nonsiblings_walk t center level [] colleague 0 out of
        None \<Rightarrow> None
      | Some out' \<Rightarrow> sep_smaller_nonsiblings_colleagues t center level cs out')"

definition sep_smaller_nonsiblings_generate ::
  "tree \<Rightarrow> nat list \<Rightarrow> nat list \<Rightarrow> nat list \<Rightarrow> nat \<Rightarrow> nat list option" where
  "sep_smaller_nonsiblings_generate t target_boxes colleagues_starts colleagues_list
       target_box_number =
     (let box_id = target_boxes ! target_box_number;
          center = load_center t box_id;
          level = box_levels t ! box_id;
          coll_start = colleagues_starts ! box_id;
          coll_stop = colleagues_starts ! (box_id + 1)
      in sep_smaller_nonsiblings_colleagues t center level
           (map (\<lambda>i. colleagues_list ! i) [coll_start..<coll_stop]) [])"

section \<open>Separated bigger non-siblings (list 4)\<close>

text \<open>
  The inner \<^verbatim>\<open>while (true)\<close> loop of \<^verbatim>\<open>SEP_BIGGER_NONSIBLINGS_TEMPLATE\<close>, which
  computes \<^verbatim>\<open>found_closer_parent\<close>. It counts \<^verbatim>\<open>check_walk_level\<close> down until it
  meets \<^verbatim>\<open>walk_level\<close>; started at or below \<^verbatim>\<open>walk_level\<close> the counter never
  meets it, and the model gives no result (\<open>None\<close>). The kernel starts it at
  \<^verbatim>\<open>box_level\<close>, above \<^verbatim>\<open>walk_level\<close>.
\<close>

function found_closer_parent :: "tree \<Rightarrow> rat list \<Rightarrow> nat \<Rightarrow> nat \<Rightarrow> nat \<Rightarrow> bool option" where
  "found_closer_parent t colleague_center walk_level check_parent_box_id check_walk_level =
     (if check_walk_level \<le> walk_level then None
      else if check_walk_level - 1 = walk_level then Some False
      else (let check_parent_box_id = box_parent_ids t ! check_parent_box_id;
                parent_a_or_o = is_adjacent_or_overlapping t colleague_center walk_level
                                  check_parent_box_id
            in if \<not> parent_a_or_o then Some True
               else found_closer_parent t colleague_center walk_level check_parent_box_id
                      (check_walk_level - 1)))"
  by pat_completeness auto
termination
  by (relation "measure (\<lambda>(t, c, wl, p, cwl). cwl)") auto

declare found_closer_parent.simps [simp del]

text \<open>One round of the \<^verbatim>\<open>for\<close> loop over the colleagues of the current parent.\<close>

definition sep_bigger_nonsiblings_of_colleague ::
  "tree \<Rightarrow> nat \<Rightarrow> rat list \<Rightarrow> nat \<Rightarrow> nat \<Rightarrow> nat \<Rightarrow> nat list option" where
  "sep_bigger_nonsiblings_of_colleague t box_id center box_level walk_level colleague_box_id =
     (let a_or_o = is_adjacent_or_overlapping t center box_level colleague_box_id
      in if \<not> a_or_o \<and> has_flag t colleague_box_id BOX_HAS_OWN_SOURCES
         then (let colleague_center = load_center t colleague_box_id
               in case found_closer_parent t colleague_center walk_level box_id box_level of
                    None \<Rightarrow> None
                  | Some found \<Rightarrow> Some (if \<not> found then [colleague_box_id] else []))
         else Some [])"

text \<open>The outer \<^verbatim>\<open>while (walk_level)\<close> loop over the ancestors of the box.\<close>

function sep_bigger_nonsiblings_loop ::
  "tree \<Rightarrow> nat list \<Rightarrow> nat list \<Rightarrow> nat \<Rightarrow> rat list \<Rightarrow> nat \<Rightarrow> nat \<Rightarrow> nat \<Rightarrow> nat list
     \<Rightarrow> nat list option" where
  "sep_bigger_nonsiblings_loop t colleagues_starts colleagues_list box_id center box_level
       current_parent_box_id walk_level out =
     (if walk_level = 0 then Some out
      else if walk_level - 1 = 0 then Some out
      else (let current_parent_box_id = box_parent_ids t ! current_parent_box_id;
                coll_start = colleagues_starts ! current_parent_box_id;
                coll_stop = colleagues_starts ! (current_parent_box_id + 1)
            in case those (map (\<lambda>i. sep_bigger_nonsiblings_of_colleague t box_id center
                                       box_level (walk_level - 1) (colleagues_list ! i))
                             [coll_start..<coll_stop]) of
                 None \<Rightarrow> None
               | Some outs \<Rightarrow>
                   sep_bigger_nonsiblings_loop t colleagues_starts colleagues_list box_id center
                     box_level current_parent_box_id (walk_level - 1) (out @ concat outs)))"
  by pat_completeness auto
termination
  by (relation "measure (\<lambda>(t, cs, cl, b, c, bl, p, wl, out). wl)") auto

declare sep_bigger_nonsiblings_loop.simps [simp del]

definition sep_bigger_nonsiblings_generate ::
  "tree \<Rightarrow> nat list \<Rightarrow> nat list \<Rightarrow> nat \<Rightarrow> nat list option" where
  "sep_bigger_nonsiblings_generate t colleagues_starts colleagues_list box_id =
     (let center = load_center t box_id;
          box_level = box_levels t ! box_id
      in sep_bigger_nonsiblings_loop t colleagues_starts colleagues_list box_id center
           box_level box_id box_level [])"

section \<open>The driver\<close>

text \<open>
  Device and host arrays are objects: the driver passes them on by reference, and two names
  may denote the same array. The model keeps the arrays in a heap, addressed by their
  position, and the traversal information holds addresses.
\<close>

type_synonym ref = nat
type_synonym heap = "nat list list"

definition alloc :: "nat list \<Rightarrow> heap \<Rightarrow> ref \<times> heap" where
  "alloc xs h = (length h, h @ [xs])"

text \<open>
  \<^verbatim>\<open>pyopencl.algorithm.ListOfListsBuilder\<close> is a library class: a call runs
  \<^verbatim>\<open>generate\<close> for each of the \<open>n\<close> objects and returns, for a list name, the new
  arrays \<^verbatim>\<open>starts\<close> and \<^verbatim>\<open>lists\<close> and the number \<^verbatim>\<open>count\<close> of entries.
  The call has a result if every \<^verbatim>\<open>generate\<close> has one.
\<close>

record list_of_lists =
  lol_starts :: ref
  lol_lists :: ref
  lol_count :: nat

definition csr_starts :: "nat list list \<Rightarrow> nat list" where
  "csr_starts outs = map (\<lambda>i. length (concat (take i outs))) [0..<length outs + 1]"

definition ListOfListsBuilder_call ::
  "(nat \<Rightarrow> nat list option) \<Rightarrow> nat \<Rightarrow> heap \<Rightarrow> (list_of_lists \<times> heap) option" where
  "ListOfListsBuilder_call generate n h =
     (case those (map generate [0..<n]) of
        None \<Rightarrow> None
      | Some outs \<Rightarrow>
          (let (s, h1) = alloc (csr_starts outs) h;
               (l, h2) = alloc (concat outs) h1
           in Some (\<lparr> lol_starts = s, lol_lists = l, lol_count = length (concat outs) \<rparr>, h2)))"

text \<open>
  \<^verbatim>\<open>get_kernel_info\<close> renders the kernel templates. The rendering looks the vector
  type of the coordinates up in \<^verbatim>\<open>cl.array.vec.types\<close> and, in \<^verbatim>\<open>load_center\<close>,
  the name of each axis in \<^verbatim>\<open>AXIS_NAMES\<close>. Both tables are imported
  (\<^verbatim>\<open>pyopencl\<close>, \<^verbatim>\<open>boxtree.tools\<close>) and are parameters of the model; a failed
  lookup raises.
\<close>

datatype error = ValueError | KeyError | IndexError | AssertionError

record imported =
  vec_types :: "string \<times> nat \<Rightarrow> string option"
  AXIS_NAMES :: "string list"

record kernel_info =
  knl_dimensions :: nat
  knl_max_levels :: nat
  knl_sources_are_targets :: bool

definition get_kernel_info :: "imported \<Rightarrow> nat \<Rightarrow> string \<Rightarrow> nat \<Rightarrow> bool \<Rightarrow> error + kernel_info" where
  "get_kernel_info env dims coord max_levels sat =
     (case vec_types env (coord, dims) of
        None \<Rightarrow> Inl KeyError
      | Some coord_vec_t \<Rightarrow>
          if dims \<le> length (AXIS_NAMES env)
          then Inr \<lparr> knl_dimensions = dims, knl_max_levels = max_levels,
                     knl_sources_are_targets = sat \<rparr>
          else Inl IndexError)"

text \<open>
  The builder of the first stage has the lists \<^verbatim>\<open>source_parent_boxes\<close> and
  \<^verbatim>\<open>source_boxes\<close>, and \<^verbatim>\<open>target_boxes\<close> only if sources are not targets.
\<close>

record sources_parents_and_targets =
  result_source_parent_boxes :: list_of_lists
  result_source_boxes :: list_of_lists
  result_target_boxes :: "list_of_lists option"

definition sources_parents_and_targets_builder ::
  "kernel_info \<Rightarrow> tree \<Rightarrow> heap \<Rightarrow> (sources_parents_and_targets \<times> heap) option" where
  "sources_parents_and_targets_builder knl_info t h =
     (case ListOfListsBuilder_call (\<lambda>b. Some (generate_source_parent_boxes t b)) (nboxes t) h of
        None \<Rightarrow> None
      | Some (spb, h1) \<Rightarrow>
     (case ListOfListsBuilder_call (\<lambda>b. Some (generate_source_boxes t b)) (nboxes t) h1 of
        None \<Rightarrow> None
      | Some (sb, h2) \<Rightarrow>
          if knl_sources_are_targets knl_info
          then Some (\<lparr> result_source_parent_boxes = spb, result_source_boxes = sb,
                       result_target_boxes = None \<rparr>, h2)
          else (case ListOfListsBuilder_call (\<lambda>b. Some (generate_target_boxes t b))
                       (nboxes t) h2 of
                  None \<Rightarrow> None
                | Some (tb, h3) \<Rightarrow>
                    Some (\<lparr> result_source_parent_boxes = spb, result_source_boxes = sb,
                            result_target_boxes = Some tb \<rparr>, h3))))"

record FMMTraversalInfo =
  tree_of :: tree
  source_boxes :: ref
  target_boxes :: ref
  source_parent_boxes :: ref
  level_start_source_parent_box_nrs :: ref
  colleagues_starts :: ref
  colleagues_lists :: ref
  neighbor_source_boxes_starts :: ref
  neighbor_source_boxes_lists :: ref
  sep_siblings_starts :: ref
  sep_siblings_lists :: ref
  sep_smaller_nonsiblings_starts :: ref
  sep_smaller_nonsiblings_lists :: ref
  sep_bigger_nonsiblings_starts :: ref
  sep_bigger_nonsiblings_lists :: ref

text \<open>
  The stages of \<^verbatim>\<open>__call__\<close> after the first: level starts, colleagues and the four
  lists. \<open>src\<close>, \<open>tgt\<close> and \<open>par\<close> are the arrays the driver calls
  \<^verbatim>\<open>source_boxes\<close>, \<^verbatim>\<open>target_boxes\<close> and \<^verbatim>\<open>source_parent_boxes\<close>.
\<close>

definition build_lists ::
  "tree \<Rightarrow> ref \<Rightarrow> ref \<Rightarrow> ref \<Rightarrow> heap \<Rightarrow> (FMMTraversalInfo \<times> heap) option" where
  "build_lists t src tgt par h =
     (let (lev, h1) = alloc (extract_level_start_box_nrs t (h ! par)) h
      in
     case ListOfListsBuilder_call (colleagues_generate t) (nboxes t) h1 of
       None \<Rightarrow> None
     | Some (colleagues, h2) \<Rightarrow>
     (case ListOfListsBuilder_call (neighbor_source_boxes_generate t (h2 ! tgt))
             (length (h2 ! tgt)) h2 of
       None \<Rightarrow> None
     | Some (neighbor_source_boxes, h3) \<Rightarrow>
     (case ListOfListsBuilder_call
             (\<lambda>b. Some (sep_siblings_generate t (h3 ! lol_starts colleagues)
                           (h3 ! lol_lists colleagues) b))
             (nboxes t) h3 of
       None \<Rightarrow> None
     | Some (sep_siblings, h4) \<Rightarrow>
     (case ListOfListsBuilder_call
             (sep_smaller_nonsiblings_generate t (h4 ! tgt) (h4 ! lol_starts colleagues)
                (h4 ! lol_lists colleagues))
             (length (h4 ! tgt)) h4 of
       None \<Rightarrow> None
     | Some (sep_smaller_nonsiblings, h5) \<Rightarrow>
     (case ListOfListsBuilder_call
             (sep_bigger_nonsiblings_generate t (h5 ! lol_starts colleagues)
                (h5 ! lol_lists colleagues))
             (nboxes t) h5 of
       None \<Rightarrow> None
     | Some (sep_bigger_nonsiblings, h6) \<Rightarrow>
         Some (\<lparr> tree_of = t,
                 source_boxes = src,
                 target_boxes = tgt,
                 source_parent_boxes = par,
                 level_start_source_parent_box_nrs = lev,
                 colleagues_starts = lol_starts colleagues,
                 colleagues_lists = lol_lists colleagues,
                 neighbor_source_boxes_starts = lol_starts neighbor_source_boxes,
                 neighbor_source_boxes_lists = lol_lists neighbor_source_boxes,
                 sep_siblings_starts = lol_starts sep_siblings,
                 sep_siblings_lists = lol_lists sep_siblings,
                 sep_smaller_nonsiblings_starts = lol_starts sep_smaller_nonsiblings,
                 sep_smaller_nonsiblings_lists = lol_lists sep_smaller_nonsiblings,
                 sep_bigger_nonsiblings_starts = lol_starts sep_bigger_nonsiblings,
                 sep_bigger_nonsiblings_lists = lol_lists sep_bigger_nonsiblings \<rparr>, h6))))))"

text \<open>
  \<^verbatim>\<open>FMMTraversalBuilder.__call__\<close>. The result is \<open>None\<close> if a kernel does not
  return, an error if the call raises, and otherwise the traversal information with the
  heap that holds its arrays.
\<close>

definition div_ceil :: "nat \<Rightarrow> nat \<Rightarrow> nat" where
  "div_ceil nr dr = (nr + dr - 1) div dr"

definition FMMTraversalBuilder_call ::
  "imported \<Rightarrow> tree \<Rightarrow> heap \<Rightarrow> (error + FMMTraversalInfo \<times> heap) option" where
  "FMMTraversalBuilder_call env t h =
     (if \<not> is_pruned t then Some (Inl ValueError)
      else
        (let max_levels = div_ceil (nlevels t) 10 * 10
         in case get_kernel_info env (dimensions t) (coord_dtype t) max_levels
                   (sources_are_targets t) of
              Inl e \<Rightarrow> Some (Inl e)
            | Inr knl_info \<Rightarrow>
           (case sources_parents_and_targets_builder knl_info t h of
              None \<Rightarrow> None
            | Some (result, h1) \<Rightarrow>
               (let src = lol_lists (result_source_boxes result)
                in if length (h1 ! src) \<noteq> lol_count (result_source_boxes result)
                   then Some (Inl AssertionError)
                   else
                 (case (if \<not> sources_are_targets t
                        then (case result_target_boxes result of
                                None \<Rightarrow> Inl KeyError
                              | Some tb \<Rightarrow>
                                  if length (h1 ! lol_lists tb) \<noteq> lol_count tb
                                  then Inl AssertionError else Inr (lol_lists tb))
                        else Inr src) of
                    Inl e \<Rightarrow> Some (Inl e)
                  | Inr tgt \<Rightarrow>
                     (let par = lol_lists (result_source_parent_boxes result)
                      in if length (h1 ! par) \<noteq> lol_count (result_source_parent_boxes result)
                         then Some (Inl AssertionError)
                         else map_option Inr (build_lists t src tgt par h1)))))))"

section \<open>The lists of a box\<close>

text \<open>
  The driver hands the result of the colleague stage, the arrays \<^verbatim>\<open>starts\<close> and
  \<^verbatim>\<open>lists\<close> of all boxes, to the kernels of list 2 and list 4.
  \<open>colleagues_of_boxes\<close> is what the colleague kernel emits for each box, and
  \<open>sep_siblings_of\<close> and \<open>sep_bigger_nonsiblings_of\<close> are list 2 and list 4 of a box
  on the arrays of that stage.
\<close>

definition colleagues_of_boxes :: "tree \<Rightarrow> nat list list option" where
  "colleagues_of_boxes t = those (map (colleagues_generate t) [0..<nboxes t])"

definition sep_siblings_of :: "tree \<Rightarrow> nat \<Rightarrow> nat list option" where
  "sep_siblings_of t box_id =
     (case colleagues_of_boxes t of
        None \<Rightarrow> None
      | Some outs \<Rightarrow> Some (sep_siblings_generate t (csr_starts outs) (concat outs) box_id))"

definition sep_bigger_nonsiblings_of :: "tree \<Rightarrow> nat \<Rightarrow> nat list option" where
  "sep_bigger_nonsiblings_of t box_id =
     (case colleagues_of_boxes t of
        None \<Rightarrow> None
      | Some outs \<Rightarrow> sep_bigger_nonsiblings_generate t (csr_starts outs) (concat outs) box_id)"

section \<open>Well-formed trees\<close>

text \<open>
  \<open>child_id t m b\<close> is the entry \<^verbatim>\<open>box_child_ids[m * aligned_nboxes + b]\<close>.

  \<open>tree_structure\<close>: box 0 is the root, on level 0 and its own parent; levels are below
  \<^verbatim>\<open>nlevels\<close>; a child slot holds 0 or a box of the next level whose parent is
  the box of the slot; every other box is in a child slot of its parent.
\<close>

definition child_id :: "tree \<Rightarrow> nat \<Rightarrow> nat \<Rightarrow> nat" where
  "child_id t morton_nr box_id = box_child_ids t ! (morton_nr * aligned_nboxes t + box_id)"

definition tree_structure :: "tree \<Rightarrow> bool" where
  "tree_structure t \<longleftrightarrow>
     0 < nboxes t
     \<and> box_levels t ! 0 = 0
     \<and> box_parent_ids t ! 0 = 0
     \<and> (\<forall>b\<in>{0..<nboxes t}. box_levels t ! b < nlevels t)
     \<and> (\<forall>b\<in>{0..<nboxes t}. \<forall>m\<in>{0..<2 ^ dimensions t}.
           child_id t m b < nboxes t
           \<and> (child_id t m b \<noteq> 0 \<longrightarrow>
                 box_levels t ! child_id t m b = box_levels t ! b + 1
                 \<and> box_parent_ids t ! child_id t m b = b))
     \<and> (\<forall>b\<in>{0..<nboxes t}. b \<noteq> 0 \<longrightarrow>
           box_parent_ids t ! b < nboxes t
           \<and> (\<exists>m\<in>{0..<2 ^ dimensions t}. child_id t m (box_parent_ids t ! b) = b))"

text \<open>
  The colleague walk as a recursion over the tree: what the walk emits for the child slots
  \<open>ms\<close> of the box \<open>w\<close> on walk level \<open>wl\<close>, descending at most \<open>fuel\<close>
  levels. \<open>colleagues_resume\<close> is the walk after \<^verbatim>\<open>walk_advance\<close>.
\<close>

fun colleagues_below ::
  "tree \<Rightarrow> rat list \<Rightarrow> nat \<Rightarrow> nat \<Rightarrow> nat \<Rightarrow> nat \<Rightarrow> nat \<Rightarrow> nat list \<Rightarrow> nat list" where
  "colleagues_below t c level box_id fuel wl w [] = []"
| "colleagues_below t c level box_id fuel wl w (m # ms) =
     (if child_id t m w \<noteq> 0 \<and> is_adjacent_or_overlapping t c level (child_id t m w)
      then (if wl + 1 = level \<and> child_id t m w \<noteq> box_id then [child_id t m w]
            else (case fuel of
                    0 \<Rightarrow> []
                  | Suc k \<Rightarrow> colleagues_below t c level box_id k (wl + 1) (child_id t m w)
                               [0..<2 ^ dimensions t]))
      else [])
     @ colleagues_below t c level box_id fuel wl w ms"

definition colleagues_resume ::
  "tree \<Rightarrow> rat list \<Rightarrow> nat \<Rightarrow> nat \<Rightarrow> (nat \<times> nat) list \<Rightarrow> nat \<Rightarrow> nat \<Rightarrow> nat list
     \<Rightarrow> nat list option" where
  "colleagues_resume t c level box_id stack w m out =
     (case walk_advance t stack w m of
        None \<Rightarrow> Some out
      | Some (stack', b, m') \<Rightarrow> colleagues_walk t c level box_id stack' b m' out)"

text \<open>
  \<open>ancestor t b k\<close> is the box reached from \<open>b\<close> by \<open>k\<close> steps to the parent.

  \<open>tree_centers\<close>: the centre of a child is off the centre of its parent by half the
  child's size on every axis, where the size of a box on level \<open>l\<close> is
  \<open>root_extent / 2 ^ l\<close>. \<open>tree_geometry\<close>: moreover there are at most 31 levels,
  those for which \<^verbatim>\<open>LEVEL_TO_SIZE\<close> is that size.
\<close>

fun ancestor :: "tree \<Rightarrow> nat \<Rightarrow> nat \<Rightarrow> nat" where
  "ancestor t b 0 = b"
| "ancestor t b (Suc k) = box_parent_ids t ! ancestor t b k"

definition tree_centers :: "tree \<Rightarrow> bool" where
  "tree_centers t \<longleftrightarrow>
     0 < dimensions t \<and> 0 \<le> root_extent t
     \<and> (\<forall>b\<in>{0..<nboxes t}. \<forall>m\<in>{0..<2 ^ dimensions t}. child_id t m b \<noteq> 0 \<longrightarrow>
           (\<forall>i\<in>{0..<dimensions t}.
              \<bar>load_center t (child_id t m b) ! i - load_center t b ! i\<bar>
                = spec_size t (box_levels t ! child_id t m b) / 2))"

definition tree_geometry :: "tree \<Rightarrow> bool" where
  "tree_geometry t \<longleftrightarrow> tree_centers t \<and> nlevels t \<le> 31"

text \<open>
  What the list 4 kernel emits for the box \<open>a\<close> (centre \<open>c\<close>, level \<open>L\<close>) at its
  ancestor \<open>k\<close> levels up: the colleagues of that ancestor that are not adjacent to
  \<open>a\<close>, have sources of their own, and are adjacent to the ancestors of \<open>a\<close> in
  between. \<open>outs\<close> are the colleagues of all boxes.
\<close>

definition sep_bigger_of_ancestor ::
  "tree \<Rightarrow> nat list list \<Rightarrow> nat \<Rightarrow> rat list \<Rightarrow> nat \<Rightarrow> nat \<Rightarrow> nat list" where
  "sep_bigger_of_ancestor t outs a c L k =
     filter (\<lambda>K. \<not> is_adjacent_or_overlapping t c L K
                 \<and> has_flag t K BOX_HAS_OWN_SOURCES
                 \<and> (\<forall>j\<in>{1..<k}. is_adjacent_or_overlapping t (load_center t K) (L - k)
                                    (ancestor t a j)))
       (outs ! ancestor t a k)"

text \<open>
  List 2 in the words of the specification: the children of the colleagues of the parent
  of \<open>b\<close> and of the parent itself that are not adjacent to \<open>b\<close>, by the formula of
  the specification. \<open>parent_colleagues\<close> are the colleagues of the parent.
\<close>

definition spec_sep_siblings :: "tree \<Rightarrow> nat list \<Rightarrow> nat \<Rightarrow> nat list" where
  "spec_sep_siblings t parent_colleagues b =
     filter (\<lambda>c. \<not> spec_adjacent t b c)
       (concat (map (\<lambda>P. filter (\<lambda>c. c \<noteq> 0) (map (\<lambda>m. child_id t m P) [0..<2 ^ dimensions t]))
                  (parent_colleagues @ [box_parent_ids t ! b])))"

section \<open>Boxes sorted by level\<close>

text \<open>
  \<open>slice xs i j\<close> is the Python slice \<^verbatim>\<open>xs[i:j]\<close>, and \<open>count_below key xs l\<close>
  is the number of entries of \<open>xs\<close> whose key is below \<open>l\<close>.

  \<open>level_sorted\<close>: the boxes are sorted by level, and \<^verbatim>\<open>level_start_box_nrs\<close>
  has the first box of each level and, at \<^verbatim>\<open>nlevels\<close>, the number of boxes.
  \<open>source_parents_closed\<close>: the parent of a box that has sources in its children has
  sources in its children. \<open>level_list\<close>: a list of boxes in increasing order that is
  empty or starts on level 0.
\<close>

definition count_below :: "('a \<Rightarrow> nat) \<Rightarrow> 'a list \<Rightarrow> nat \<Rightarrow> nat" where
  "count_below key xs l = length (filter (\<lambda>x. key x < l) xs)"

definition slice :: "'a list \<Rightarrow> nat \<Rightarrow> nat \<Rightarrow> 'a list" where
  "slice xs i j = drop i (take j xs)"

definition level_sorted :: "tree \<Rightarrow> bool" where
  "level_sorted t \<longleftrightarrow>
     length (level_start_box_nrs t) = nlevels t + 1 \<and> sorted (level_start_box_nrs t)
     \<and> (\<forall>b\<in>{0..<nboxes t}. box_levels t ! b < nlevels t
           \<and> level_start_box_nrs t ! (box_levels t ! b) \<le> b
           \<and> b < level_start_box_nrs t ! (box_levels t ! b + 1))"

definition source_parents_closed :: "tree \<Rightarrow> bool" where
  "source_parents_closed t \<longleftrightarrow>
     (\<forall>b\<in>{0..<nboxes t}. has_flag t b BOX_HAS_CHILD_SOURCES \<longrightarrow>
        has_flag t (box_parent_ids t ! b) BOX_HAS_CHILD_SOURCES)"

definition level_list :: "tree \<Rightarrow> nat list \<Rightarrow> bool" where
  "level_list t L \<longleftrightarrow>
     sorted_wrt (<) L \<and> set L \<subseteq> {0..<nboxes t} \<and> (L \<noteq> [] \<longrightarrow> box_levels t ! (L ! 0) = 0)"

section \<open>Trees used as examples\<close>

text \<open>
  A tree of 32 levels in two dimensions. Boxes 0 to 29 are a chain of first children
  towards the lower left corner of the root. Box 29 has the children 30 and 31 on level
  30, box 30 has the children 32 and 33 on level 31, and box 31 is a leaf.
\<close>

definition deep_tree :: tree where
  "deep_tree =
     \<lparr> dimensions = 2, coord_dtype = ''float64'', nboxes = 34, nlevels = 32,
       aligned_nboxes = 34, root_extent = 1,
       box_centers =
         map (\<lambda>k. if k \<le> 30 then - 1 / 2 + 1 / 2 ^ (k + 1)
                   else if k = 31 then - 1 / 2 + 1 / 2 ^ 31 + 1 / 2 ^ 30
                   else if k = 32 then - 1 / 2 + 1 / 2 ^ 32
                   else - 1 / 2 + 1 / 2 ^ 31 + 1 / 2 ^ 32) [0..<34]
         @ map (\<lambda>k. if k \<le> 30 then - 1 / 2 + 1 / 2 ^ (k + 1)
                     else if k = 31 then - 1 / 2 + 1 / 2 ^ 31
                     else - 1 / 2 + 1 / 2 ^ 32) [0..<34],
       box_levels = map (\<lambda>k. if k \<le> 30 then k else if k = 31 then 30 else 31) [0..<34],
       box_parent_ids =
         map (\<lambda>k. if k \<le> 30 then k - 1 else if k = 31 then 29 else 30) [0..<34],
       box_child_ids =
         map (\<lambda>k. if k < 30 then k + 1 else if k = 30 then 32 else 0) [0..<34]
         @ map (\<lambda>k. if k = 29 then 31 else if k = 30 then 33 else 0) [0..<34]
         @ replicate 34 0 @ replicate 34 0,
       box_flags =
         map (\<lambda>k. if k \<le> 30
                   then [BOX_HAS_CHILD_SOURCES, BOX_HAS_CHILD_TARGETS, BOX_HAS_CHILDREN]
                   else [BOX_HAS_OWN_SOURCES, BOX_HAS_OWN_TARGETS]) [0..<34],
       level_start_box_nrs = [0..<31] @ [32, 34],
       sources_are_targets = False, is_pruned = True \<rparr>"

text \<open>
  The two imported tables: \<^verbatim>\<open>cl.array.vec.types\<close> has vector types of 2, 3, 4, 8
  and 16 components, and \<^verbatim>\<open>AXIS_NAMES\<close> names four axes.
\<close>

definition pyopencl_env :: imported where
  "pyopencl_env =
     \<lparr> vec_types = map_of
         (concat (map (\<lambda>n. [((''float32'', n), ''float'' @ (if n = 2 then ''2'' else if n = 3 then ''3'' else if n = 4 then ''4'' else if n = 8 then ''8'' else ''16'')),
                             ((''float64'', n), ''double'' @ (if n = 2 then ''2'' else if n = 3 then ''3'' else if n = 4 then ''4'' else if n = 8 then ''8'' else ''16''))])
            [2, 3, 4, 8, 16])),
       AXIS_NAMES = [''x'', ''y'', ''z'', ''w''] \<rparr>"

text \<open>A tree that is its root only; the root has sources and targets.\<close>

definition single_box_tree :: tree where
  "single_box_tree =
     \<lparr> dimensions = 2, coord_dtype = ''float64'', nboxes = 1, nlevels = 1,
       aligned_nboxes = 1, root_extent = 1,
       box_centers = [0, 0],
       box_levels = [0],
       box_parent_ids = [0],
       box_child_ids = [0, 0, 0, 0],
       box_flags = [[BOX_HAS_OWN_SOURCES, BOX_HAS_OWN_TARGETS]],
       level_start_box_nrs = [0, 1],
       sources_are_targets = False, is_pruned = True \<rparr>"

text \<open>A root with four leaves on level 1. Sources are targets.\<close>

definition quad_tree :: tree where
  "quad_tree =
     \<lparr> dimensions = 2, coord_dtype = ''float64'', nboxes = 5, nlevels = 2,
       aligned_nboxes = 5, root_extent = 1,
       box_centers = [0, - 1 / 4, - 1 / 4, 1 / 4, 1 / 4,
                      0, - 1 / 4, 1 / 4, - 1 / 4, 1 / 4],
       box_levels = [0, 1, 1, 1, 1],
       box_parent_ids = [0, 0, 0, 0, 0],
       box_child_ids = [1, 0, 0, 0, 0,
                        2, 0, 0, 0, 0,
                        3, 0, 0, 0, 0,
                        4, 0, 0, 0, 0],
       box_flags = [[BOX_HAS_CHILD_SOURCES, BOX_HAS_CHILD_TARGETS, BOX_HAS_CHILDREN],
                    [BOX_HAS_OWN_SOURCES, BOX_HAS_OWN_TARGETS],
                    [BOX_HAS_OWN_SOURCES, BOX_HAS_OWN_TARGETS],
                    [BOX_HAS_OWN_SOURCES, BOX_HAS_OWN_TARGETS],
                    [BOX_HAS_OWN_SOURCES, BOX_HAS_OWN_TARGETS]],
       level_start_box_nrs = [0, 1, 5],
       sources_are_targets = True, is_pruned = True \<rparr>"

text \<open>
  A root with four children on level 1 (boxes 1 to 4). Box 1, the lower left quadrant, has
  the four leaves 5 to 8 on level 2, and box 2 has the four leaves 9 to 12.
\<close>

definition refined_tree :: tree where
  "refined_tree =
     \<lparr> dimensions = 2, coord_dtype = ''float64'', nboxes = 13, nlevels = 3,
       aligned_nboxes = 13, root_extent = 1,
       box_centers = [0, - 1 / 4, - 1 / 4, 1 / 4, 1 / 4,
                      - 3 / 8, - 3 / 8, - 1 / 8, - 1 / 8, - 3 / 8, - 3 / 8, - 1 / 8, - 1 / 8,
                      0, - 1 / 4, 1 / 4, - 1 / 4, 1 / 4,
                      - 3 / 8, - 1 / 8, - 3 / 8, - 1 / 8, 1 / 8, 3 / 8, 1 / 8, 3 / 8],
       box_levels = [0, 1, 1, 1, 1, 2, 2, 2, 2, 2, 2, 2, 2],
       box_parent_ids = [0, 0, 0, 0, 0, 1, 1, 1, 1, 2, 2, 2, 2],
       box_child_ids = [1, 5, 9, 0, 0, 0, 0, 0, 0, 0, 0, 0, 0,
                        2, 6, 10, 0, 0, 0, 0, 0, 0, 0, 0, 0, 0,
                        3, 7, 11, 0, 0, 0, 0, 0, 0, 0, 0, 0, 0,
                        4, 8, 12, 0, 0, 0, 0, 0, 0, 0, 0, 0, 0],
       box_flags = [[BOX_HAS_CHILD_SOURCES, BOX_HAS_CHILD_TARGETS, BOX_HAS_CHILDREN],
                    [BOX_HAS_CHILD_SOURCES, BOX_HAS_CHILD_TARGETS, BOX_HAS_CHILDREN],
                    [BOX_HAS_CHILD_SOURCES, BOX_HAS_CHILD_TARGETS, BOX_HAS_CHILDREN],
                    [BOX_HAS_OWN_SOURCES, BOX_HAS_OWN_TARGETS],
                    [BOX_HAS_OWN_SOURCES, BOX_HAS_OWN_TARGETS],
                    [BOX_HAS_OWN_SOURCES, BOX_HAS_OWN_TARGETS],
                    [BOX_HAS_OWN_SOURCES, BOX_HAS_OWN_TARGETS],
                    [BOX_HAS_OWN_SOURCES, BOX_HAS_OWN_TARGETS],
                    [BOX_HAS_OWN_SOURCES, BOX_HAS_OWN_TARGETS],
                    [BOX_HAS_OWN_SOURCES, BOX_HAS_OWN_TARGETS],
                    [BOX_HAS_OWN_SOURCES, BOX_HAS_OWN_TARGETS],
                    [BOX_HAS_OWN_SOURCES, BOX_HAS_OWN_TARGETS],
                    [BOX_HAS_OWN_SOURCES, BOX_HAS_OWN_TARGETS]],
       level_start_box_nrs = [0, 1, 5, 13],
       sources_are_targets = False, is_pruned = True \<rparr>"

text \<open>A single box in four dimensions.\<close>

definition hyper_tree :: tree where
  "hyper_tree =
     \<lparr> dimensions = 4, coord_dtype = ''float64'', nboxes = 1, nlevels = 1,
       aligned_nboxes = 1, root_extent = 1,
       box_centers = [0, 0, 0, 0],
       box_levels = [0],
       box_parent_ids = [0],
       box_child_ids = replicate 16 0,
       box_flags = [[BOX_HAS_OWN_SOURCES, BOX_HAS_OWN_TARGETS]],
       level_start_box_nrs = [0, 1],
       sources_are_targets = False, is_pruned = True \<rparr>"

section \<open>Properties of the adjacency test\<close>

lemma sint_shift_one:
  assumes "n < 31"
  shows "sint (push_bit n (1 :: 32 word)) = 2 ^ n"
proof -
  have "(2::int) ^ n < 2 ^ 31"
    using assms by (rule power_strict_increasing) simp
  moreover have "- ((2::int) ^ 31) \<le> 2 ^ n"
    by (rule order_trans [of _ 0]) simp_all
  ultimately have fits: "signed_take_bit 31 ((2::int) ^ n) = 2 ^ n"
    by (rule signed_take_bit_int_eq_self [rotated])
  have "sint (push_bit n (1 :: 32 word))
          = signed_take_bit (LENGTH(32) - Suc 0) (push_bit n (sint (1 :: 32 word)))"
    by (rule signed_push_bit_eq)
  also have "\<dots> = signed_take_bit 31 ((2::int) ^ n)"
    by (simp add: push_bit_eq_mult)
  finally show ?thesis
    using fits by simp
qed

lemma LEVEL_TO_SIZE_small:
  "level < 31 \<Longrightarrow> LEVEL_TO_SIZE t level = spec_size t level"
  unfolding LEVEL_TO_SIZE_def spec_size_def
  by (simp only: mod_less [of level 32] sint_shift_one) simp

lemma foldl_max_le:
  fixes f :: "nat \<Rightarrow> rat"
  shows "foldl (\<lambda>m i. max m (f i)) a xs \<le> s \<longleftrightarrow> a \<le> s \<and> (\<forall>i\<in>set xs. f i \<le> s)"
  by (induction xs arbitrary: a) auto

lemma max_dist_le:
  "foldl (\<lambda>m i. max m \<bar>c ! i - c' ! i\<bar>) (0::rat) [0..<d] \<le> s
     \<longleftrightarrow> 0 \<le> s \<and> (\<forall>i<d. \<bar>c ! i - c' ! i\<bar> \<le> s)"
  by (auto simp add: foldl_max_le)

lemma load_center_nth:
  "i < dimensions t \<Longrightarrow> load_center t b ! i = box_centers t ! (aligned_nboxes t * i + b)"
  by (simp add: load_center_def)

lemma length_load_center [simp]: "length (load_center t b) = dimensions t"
  by (simp add: load_center_def)

text \<open>
  Below level 31 the shift does not overflow, \<^verbatim>\<open>LEVEL_TO_SIZE\<close> is the size of
  the specification, and the test is the specification's formula.
\<close>

lemma adjacent_iff_spec_adjacent:
  assumes d: "0 < dimensions t"
    and la: "box_levels t ! a < 31" and lb: "box_levels t ! b < 31"
  shows "adjacent t a b \<longleftrightarrow> spec_adjacent t a b"
proof -
  let ?s = "1 / 2 * (spec_size t (box_levels t ! a) + spec_size t (box_levels t ! b))
          + 1 / 2 * spec_size t (max (box_levels t ! a) (box_levels t ! b))"
  let ?f = "\<lambda>i. \<bar>load_center t a ! i - load_center t b ! i\<bar>"
  have m: "max (box_levels t ! a) (box_levels t ! b) < 31"
    using la lb by simp
  have "adjacent t a b \<longleftrightarrow> 0 \<le> ?s \<and> (\<forall>i<dimensions t. ?f i \<le> ?s)"
    unfolding adjacent_def is_adjacent_or_overlapping_def Let_def
    by (simp only: LEVEL_TO_SIZE_small [OF la] LEVEL_TO_SIZE_small [OF lb]
        LEVEL_TO_SIZE_small [OF m] max_dist_le)
  also have "\<dots> \<longleftrightarrow> (\<forall>i<dimensions t. ?f i \<le> ?s)"
  proof -
    have "0 \<le> ?s" if "\<forall>i<dimensions t. ?f i \<le> ?s"
    proof -
      have "?f 0 \<le> ?s" using that d by blast
      then show ?thesis by linarith
    qed
    then show ?thesis by blast
  qed
  also have "\<dots> \<longleftrightarrow> Max (?f ` {0..<dimensions t}) \<le> ?s"
    using d by (subst Max_le_iff) auto
  finally show ?thesis
    by (simp only: spec_adjacent_def linf_dist_def)
qed

text \<open>
  C2. The claim: for every pair of boxes A and B, \<^verbatim>\<open>is_adjacent_or_overlapping\<close>
  holds if and only if the distance of the centres in the maximum norm is at most
  \<open>1/2 * (size(l_A) + size(l_B)) + 1/2 * size(max(l_A, l_B))\<close>, where
  \<open>size(l) = root_extent * 2^(-l)\<close>. In \<open>deep_tree\<close> box 32 has level 31, where
  \<^verbatim>\<open>1 << level\<close> is negative: the test of box 32 against the root fails, although
  the distance of the centres is within the bound of the formula.
\<close>

theorem adjacency_test_at_level_31:
  "box_levels deep_tree ! 32 = 31
   \<and> \<not> is_adjacent_or_overlapping deep_tree (load_center deep_tree 32)
         (box_levels deep_tree ! 32) 0
   \<and> spec_adjacent deep_tree 32 0"
  by code_simp

section \<open>List 1 of a tree that is its root only\<close>

text \<open>
  C3. The claim: for every target box T and every box S with own sources that is adjacent
  to T, S appears exactly once in list 1 of T. The walk of the list 1 kernel starts at
  the root and looks at children only, so the root itself is never emitted: in the tree
  that is its root only, the root has sources and targets and is adjacent to itself, and
  its list 1 is empty.
\<close>

theorem neighbor_source_boxes_of_single_box:
  "has_flag single_box_tree 0 BOX_HAS_OWN_TARGETS
   \<and> has_flag single_box_tree 0 BOX_HAS_OWN_SOURCES
   \<and> is_adjacent_or_overlapping single_box_tree (load_center single_box_tree 0)
       (box_levels single_box_tree ! 0) 0
   \<and> neighbor_source_boxes_generate single_box_tree [0] 0 = Some []"
  by code_simp

section \<open>The driver\<close>

lemma build_lists_refs:
  "build_lists t src tgt par h = Some (trav, h')
     \<Longrightarrow> source_boxes trav = src \<and> target_boxes trav = tgt \<and> source_parent_boxes trav = par"
  unfolding build_lists_def
  by (auto simp: Let_def split: option.splits prod.splits)

lemma get_kernel_info_Inr:
  "get_kernel_info env dims coord ml sat = Inr knl
     \<Longrightarrow> knl_sources_are_targets knl = sat \<and> knl_dimensions knl = dims"
  by (auto simp: get_kernel_info_def split: option.splits if_splits)

lemma ListOfListsBuilder_call_heap:
  "ListOfListsBuilder_call g n h = Some (r, h')
     \<Longrightarrow> length h' = length h + 2 \<and> lol_starts r = length h \<and> lol_lists r = length h + 1"
  by (auto simp: ListOfListsBuilder_call_def alloc_def Let_def split: option.splits)

lemma sources_parents_and_targets_builder_aliased:
  assumes "sources_parents_and_targets_builder knl t h = Some (result, h1)"
    and "knl_sources_are_targets knl"
  shows "result_target_boxes result = None \<and> length h1 = length h + 4"
  using assms unfolding sources_parents_and_targets_builder_def
  by (auto split: option.splits dest!: ListOfListsBuilder_call_heap)

lemma FMMTraversalBuilder_call_InrD:
  assumes "FMMTraversalBuilder_call env t h = Some (Inr (trav, h'))"
  shows "\<exists>knl result h1 tgt.
           get_kernel_info env (dimensions t) (coord_dtype t) (div_ceil (nlevels t) 10 * 10)
             (sources_are_targets t) = Inr knl
         \<and> sources_parents_and_targets_builder knl t h = Some (result, h1)
         \<and> (sources_are_targets t \<longrightarrow> tgt = lol_lists (result_source_boxes result))
         \<and> build_lists t (lol_lists (result_source_boxes result)) tgt
              (lol_lists (result_source_parent_boxes result)) h1 = Some (trav, h')"
proof -
  from assms have pruned: "is_pruned t"
    by (auto simp: FMMTraversalBuilder_call_def split: if_splits)
  obtain knl where knl: "get_kernel_info env (dimensions t) (coord_dtype t)
      (div_ceil (nlevels t) 10 * 10) (sources_are_targets t) = Inr knl"
    using assms pruned
    by (cases "get_kernel_info env (dimensions t) (coord_dtype t)
      (div_ceil (nlevels t) 10 * 10) (sources_are_targets t)")
      (auto simp: FMMTraversalBuilder_call_def Let_def)
  obtain result h1 where s0: "sources_parents_and_targets_builder knl t h = Some (result, h1)"
    using assms pruned knl
    by (cases "sources_parents_and_targets_builder knl t h")
      (auto simp: FMMTraversalBuilder_call_def Let_def)
  show ?thesis
    using assms pruned knl s0
    by (auto simp: FMMTraversalBuilder_call_def Let_def
        split: if_splits sum.splits option.splits)
qed

text \<open>
  The heap after the kernels of the first stage, and after the whole call: on a pruned
  tree whose kernels render, the call only appends arrays to the heap, and the arrays it
  returns are the lists the kernels generate.
\<close>

lemma those_map_Some_total: "those (map (\<lambda>b. Some (f b)) xs) = Some (map f xs)"
  by (induction xs) simp_all

lemma ListOfListsBuilder_call_Some:
  "ListOfListsBuilder_call g n h = Some (r, h') \<longleftrightarrow>
     (\<exists>outs. those (map g [0..<n]) = Some outs
        \<and> r = \<lparr> lol_starts = length h, lol_lists = length h + 1,
                 lol_count = length (concat outs) \<rparr>
        \<and> h' = h @ [csr_starts outs, concat outs])"
  by (auto simp: ListOfListsBuilder_call_def alloc_def Let_def split: option.splits)

lemma ListOfListsBuilder_call_total:
  "ListOfListsBuilder_call (\<lambda>b. Some (f b)) n h
     = Some (\<lparr> lol_starts = length h, lol_lists = length h + 1,
               lol_count = length (concat (map f [0..<n])) \<rparr>,
             h @ [csr_starts (map f [0..<n]), concat (map f [0..<n])])"
  by (simp add: ListOfListsBuilder_call_def alloc_def Let_def those_map_Some_total)

lemma sources_parents_and_targets_builder_eq:
  "sources_parents_and_targets_builder knl t h =
     (let spb = map (generate_source_parent_boxes t) [0..<nboxes t];
          sb = map (generate_source_boxes t) [0..<nboxes t];
          tb = map (generate_target_boxes t) [0..<nboxes t]
      in Some
        (\<lparr> result_source_parent_boxes =
             \<lparr> lol_starts = length h, lol_lists = length h + 1,
               lol_count = length (concat spb) \<rparr>,
           result_source_boxes =
             \<lparr> lol_starts = length h + 2, lol_lists = length h + 3,
               lol_count = length (concat sb) \<rparr>,
           result_target_boxes =
             (if knl_sources_are_targets knl then None
              else Some \<lparr> lol_starts = length h + 4, lol_lists = length h + 5,
                          lol_count = length (concat tb) \<rparr>) \<rparr>,
         h @ [csr_starts spb, concat spb, csr_starts sb, concat sb]
           @ (if knl_sources_are_targets knl then [] else [csr_starts tb, concat tb])))"
  by (simp add: sources_parents_and_targets_builder_def ListOfListsBuilder_call_total Let_def)

lemma build_lists_heap:
  assumes "build_lists t src tgt par h = Some (trav, h')"
  shows "\<exists>hs. h' = h @ extract_level_start_box_nrs t (h ! par) # hs"
    and "level_start_source_parent_box_nrs trav = length h"
  using assms unfolding build_lists_def alloc_def Let_def
  by (auto simp: ListOfListsBuilder_call_Some split: option.splits prod.splits)


lemma FMMTraversalBuilder_call_kernels:
  assumes "is_pruned t"
    and "get_kernel_info env (dimensions t) (coord_dtype t) (div_ceil (nlevels t) 10 * 10)
           (sources_are_targets t) = Inr knl"
  shows "FMMTraversalBuilder_call env t h =
     map_option Inr
       (build_lists t (length h + 3) (if sources_are_targets t then length h + 3 else length h + 5)
          (length h + 1)
          (h @ [csr_starts (map (generate_source_parent_boxes t) [0..<nboxes t]),
                concat (map (generate_source_parent_boxes t) [0..<nboxes t]),
                csr_starts (map (generate_source_boxes t) [0..<nboxes t]),
                concat (map (generate_source_boxes t) [0..<nboxes t])]
             @ (if sources_are_targets t then []
                else [csr_starts (map (generate_target_boxes t) [0..<nboxes t]),
                      concat (map (generate_target_boxes t) [0..<nboxes t])])))"
proof -
  have sat: "knl_sources_are_targets knl = sources_are_targets t"
    using get_kernel_info_Inr [OF assms(2)] by simp
  show ?thesis
    unfolding FMMTraversalBuilder_call_def
    using assms
    by (simp add: sources_parents_and_targets_builder_eq sat Let_def nth_append)
qed

lemma FMMTraversalBuilder_call_level_start:
  assumes "FMMTraversalBuilder_call env t h = Some (Inr (trav, h'))"
  shows "h' ! source_parent_boxes trav
           = concat (map (generate_source_parent_boxes t) [0..<nboxes t])"
    and "h' ! level_start_source_parent_box_nrs trav
           = extract_level_start_box_nrs t
               (concat (map (generate_source_parent_boxes t) [0..<nboxes t]))"
proof -
  from assms have pruned: "is_pruned t"
    by (auto simp: FMMTraversalBuilder_call_def split: if_splits)
  from FMMTraversalBuilder_call_InrD [OF assms] obtain knl where
    knl: "get_kernel_info env (dimensions t) (coord_dtype t) (div_ceil (nlevels t) 10 * 10)
             (sources_are_targets t) = Inr knl"
    by blast
  let ?h1 = "h @ [csr_starts (map (generate_source_parent_boxes t) [0..<nboxes t]),
                concat (map (generate_source_parent_boxes t) [0..<nboxes t]),
                csr_starts (map (generate_source_boxes t) [0..<nboxes t]),
                concat (map (generate_source_boxes t) [0..<nboxes t])]
             @ (if sources_are_targets t then []
                else [csr_starts (map (generate_target_boxes t) [0..<nboxes t]),
                      concat (map (generate_target_boxes t) [0..<nboxes t])])"
  from assms have bl: "build_lists t (length h + 3)
      (if sources_are_targets t then length h + 3 else length h + 5) (length h + 1) ?h1
      = Some (trav, h')"
    unfolding FMMTraversalBuilder_call_kernels [OF pruned knl] by auto
  have par: "?h1 ! (length h + 1) = concat (map (generate_source_parent_boxes t) [0..<nboxes t])"
    by (simp add: nth_append)
  from build_lists_heap [OF bl] obtain hs where
    h': "h' = ?h1 @ extract_level_start_box_nrs t (?h1 ! (length h + 1)) # hs"
    and lev: "level_start_source_parent_box_nrs trav = length ?h1"
    by blast
  from build_lists_refs [OF bl] have sp: "source_parent_boxes trav = length h + 1"
    by simp
  have "length h + 1 < length ?h1"
    by simp
  then have "h' ! (length h + 1) = ?h1 ! (length h + 1)"
    unfolding h' by (simp only: nth_append if_True)
  with par sp show "h' ! source_parent_boxes trav
           = concat (map (generate_source_parent_boxes t) [0..<nboxes t])"
    by simp
  have "h' ! length ?h1 = extract_level_start_box_nrs t (?h1 ! (length h + 1))"
    unfolding h' by (simp only: nth_append_length)
  with par lev show "h' ! level_start_source_parent_box_nrs trav
           = extract_level_start_box_nrs t
               (concat (map (generate_source_parent_boxes t) [0..<nboxes t]))"
    by simp
qed

lemma build_lists_appends:
  assumes "build_lists t src tgt par h = Some (trav, h')"
  shows "\<exists>hs. h' = h @ hs \<and> length hs = 11
           \<and> level_start_source_parent_box_nrs trav = length h"
proof -
  from assms obtain r1 h2 r2 h3 r3 h4 r4 h5 r5 where
    c1: "ListOfListsBuilder_call (colleagues_generate t) (nboxes t)
           (h @ [extract_level_start_box_nrs t (h ! par)]) = Some (r1, h2)"
    and c2: "ListOfListsBuilder_call (neighbor_source_boxes_generate t (h2 ! tgt))
           (length (h2 ! tgt)) h2 = Some (r2, h3)"
    and c3: "ListOfListsBuilder_call
           (\<lambda>b. Some (sep_siblings_generate t (h3 ! lol_starts r1) (h3 ! lol_lists r1) b))
           (nboxes t) h3 = Some (r3, h4)"
    and c4: "ListOfListsBuilder_call
           (sep_smaller_nonsiblings_generate t (h4 ! tgt) (h4 ! lol_starts r1)
              (h4 ! lol_lists r1)) (length (h4 ! tgt)) h4 = Some (r4, h5)"
    and c5: "ListOfListsBuilder_call
           (sep_bigger_nonsiblings_generate t (h5 ! lol_starts r1) (h5 ! lol_lists r1))
           (nboxes t) h5 = Some (r5, h')"
    and lev: "level_start_source_parent_box_nrs trav = length h"
    unfolding build_lists_def alloc_def
    by (auto simp: Let_def split: option.splits prod.splits)
  from c1 [unfolded ListOfListsBuilder_call_Some] obtain a1 b1 where
    "h2 = (h @ [extract_level_start_box_nrs t (h ! par)]) @ [a1, b1]" by blast
  moreover from c2 [unfolded ListOfListsBuilder_call_Some] obtain a2 b2 where
    "h3 = h2 @ [a2, b2]" by blast
  moreover from c3 [unfolded ListOfListsBuilder_call_Some] obtain a3 b3 where
    "h4 = h3 @ [a3, b3]" by blast
  moreover from c4 [unfolded ListOfListsBuilder_call_Some] obtain a4 b4 where
    "h5 = h4 @ [a4, b4]" by blast
  moreover from c5 [unfolded ListOfListsBuilder_call_Some] obtain a5 b5 where
    "h' = h5 @ [a5, b5]" by blast
  ultimately have "h' = h @ [extract_level_start_box_nrs t (h ! par), a1, b1, a2, b2, a3, b3,
      a4, b4, a5, b5]"
    by simp
  with lev show ?thesis
    by (intro exI [of _ "[extract_level_start_box_nrs t (h ! par), a1, b1, a2, b2, a3, b3,
      a4, b4, a5, b5]"]) simp
qed

text \<open>
  C9. With \<^verbatim>\<open>sources_are_targets\<close>, the \<^verbatim>\<open>target_boxes\<close> of the returned
  traversal information is the same array as its \<^verbatim>\<open>source_boxes\<close>: the same address
  in the heap, that of the fourth array the call allocates. The first stage builds no
  list of target boxes: the call extends the heap by the starts and the lists of
  \<^verbatim>\<open>source_parent_boxes\<close> and of \<^verbatim>\<open>source_boxes\<close>, and the fifth array is already
  the level starts of the next stage, the first of the eleven arrays of the later stages.
\<close>

theorem target_boxes_alias_source_boxes:
  assumes "sources_are_targets t"
    and "FMMTraversalBuilder_call env t h = Some (Inr (trav, h'))"
  shows "target_boxes trav = source_boxes trav
     \<and> source_boxes trav = length h + 3
     \<and> level_start_source_parent_box_nrs trav = length h + 4
     \<and> (\<exists>hs. h' = h @ [csr_starts (map (generate_source_parent_boxes t) [0..<nboxes t]),
                        concat (map (generate_source_parent_boxes t) [0..<nboxes t]),
                        csr_starts (map (generate_source_boxes t) [0..<nboxes t]),
                        concat (map (generate_source_boxes t) [0..<nboxes t])] @ hs
              \<and> length hs = 11)"
proof -
  from assms(2) have pruned: "is_pruned t"
    by (auto simp: FMMTraversalBuilder_call_def split: if_splits)
  from FMMTraversalBuilder_call_InrD [OF assms(2)] obtain knl where
    knl: "get_kernel_info env (dimensions t) (coord_dtype t) (div_ceil (nlevels t) 10 * 10)
             (sources_are_targets t) = Inr knl"
    by blast
  let ?h1 = "h @ [csr_starts (map (generate_source_parent_boxes t) [0..<nboxes t]),
                  concat (map (generate_source_parent_boxes t) [0..<nboxes t]),
                  csr_starts (map (generate_source_boxes t) [0..<nboxes t]),
                  concat (map (generate_source_boxes t) [0..<nboxes t])]"
  from assms have bl: "build_lists t (length h + 3) (length h + 3) (length h + 1) ?h1
      = Some (trav, h')"
    unfolding FMMTraversalBuilder_call_kernels [OF pruned knl] by auto
  from build_lists_refs [OF bl] have "target_boxes trav = source_boxes trav"
    and "source_boxes trav = length h + 3"
    by simp_all
  moreover from build_lists_appends [OF bl] obtain hs where
    "h' = ?h1 @ hs" "length hs = 11" "level_start_source_parent_box_nrs trav = length ?h1"
    by blast
  ultimately show ?thesis
    by simp
qed

lemma quad_run: "map_option isl (FMMTraversalBuilder_call pyopencl_env quad_tree []) = Some False"
  by code_simp

theorem target_boxes_alias_source_boxes_witness:
  "sources_are_targets quad_tree
   \<and> (case FMMTraversalBuilder_call pyopencl_env quad_tree [] of
         Some (Inr (trav, h')) \<Rightarrow>
           target_boxes trav = source_boxes trav \<and> source_boxes trav = 3
           \<and> level_start_source_parent_box_nrs trav = 4 \<and> length h' = 15
       | _ \<Rightarrow> False)"
proof -
  have sat: "sources_are_targets quad_tree"
    by (simp add: quad_tree_def)
  from quad_run obtain x where
    x: "FMMTraversalBuilder_call pyopencl_env quad_tree [] = Some x" and "\<not> isl x"
    by auto
  then obtain r where "x = Inr r"
    by (cases x) auto
  moreover obtain trav h' where "r = (trav, h')"
    by (cases r)
  ultimately have
    run: "FMMTraversalBuilder_call pyopencl_env quad_tree [] = Some (Inr (trav, h'))"
    using x by simp
  from target_boxes_alias_source_boxes [OF sat run] obtain hs where
    "target_boxes trav = source_boxes trav" "source_boxes trav = 3"
    "level_start_source_parent_box_nrs trav = 4" 
    "length h' = 15"
    by auto
  with sat run show ?thesis by simp
qed

text \<open>
  Without \<^verbatim>\<open>sources_are_targets\<close> the first stage allocates two more arrays, and
  \<^verbatim>\<open>target_boxes\<close> is the second of them.
\<close>

lemma target_boxes_separate:
  assumes "\<not> sources_are_targets t"
    and "FMMTraversalBuilder_call env t h = Some (Inr (trav, h'))"
  shows "source_boxes trav = length h + 3 \<and> target_boxes trav = length h + 5
     \<and> level_start_source_parent_box_nrs trav = length h + 6
     \<and> length h' = length h + 17"
proof -
  from assms(2) have pruned: "is_pruned t"
    by (auto simp: FMMTraversalBuilder_call_def split: if_splits)
  from FMMTraversalBuilder_call_InrD [OF assms(2)] obtain knl where
    knl: "get_kernel_info env (dimensions t) (coord_dtype t) (div_ceil (nlevels t) 10 * 10)
             (sources_are_targets t) = Inr knl"
    by blast
  let ?h1 = "h @ [csr_starts (map (generate_source_parent_boxes t) [0..<nboxes t]),
                  concat (map (generate_source_parent_boxes t) [0..<nboxes t]),
                  csr_starts (map (generate_source_boxes t) [0..<nboxes t]),
                  concat (map (generate_source_boxes t) [0..<nboxes t]),
                  csr_starts (map (generate_target_boxes t) [0..<nboxes t]),
                  concat (map (generate_target_boxes t) [0..<nboxes t])]"
  from assms have bl: "build_lists t (length h + 3) (length h + 5) (length h + 1) ?h1
      = Some (trav, h')"
    unfolding FMMTraversalBuilder_call_kernels [OF pruned knl] by auto
  from build_lists_refs [OF bl] have "source_boxes trav = length h + 3"
    and "target_boxes trav = length h + 5"
    by simp_all
  moreover from build_lists_appends [OF bl] obtain hs where
    "h' = ?h1 @ hs" "length hs = 11" "level_start_source_parent_box_nrs trav = length ?h1"
    by blast
  ultimately show ?thesis
    by simp
qed

text \<open>
  C8. The claim: a call of the builder on a tree whose dimensions are neither 2 nor 3
  fails with an error for the unsupported dimension. The builder has no check of the
  dimensions: with the imported tables of \<open>pyopencl_env\<close> the call on a tree of
  dimension 4 returns a traversal.
\<close>

theorem dimension_4_is_not_rejected:
  "dimensions hyper_tree = 4
   \<and> map_option isl (FMMTraversalBuilder_call pyopencl_env hyper_tree []) = Some False"
  by code_simp

text \<open>
  C8, amended. A call on a pruned tree fails exactly when the rendering of the kernels
  fails: with \<^verbatim>\<open>KeyError\<close> when the vector types have no entry for the
  dimensions of the tree, and with \<^verbatim>\<open>IndexError\<close> when they have one and
  there are fewer axis names than dimensions. No other error is raised, whatever the
  dimensions are.
\<close>

theorem dimension_lookup_failure:
  assumes "is_pruned t"
  shows "FMMTraversalBuilder_call env t h = Some (Inl e) \<longleftrightarrow>
     (vec_types env (coord_dtype t, dimensions t) = None \<and> e = KeyError)
     \<or> (vec_types env (coord_dtype t, dimensions t) \<noteq> None
          \<and> length (AXIS_NAMES env) < dimensions t \<and> e = IndexError)"
proof (cases "get_kernel_info env (dimensions t) (coord_dtype t) (div_ceil (nlevels t) 10 * 10)
           (sources_are_targets t)")
  case (Inl e')
  then have "FMMTraversalBuilder_call env t h = Some (Inl e')"
    using assms by (simp add: FMMTraversalBuilder_call_def Let_def)
  moreover from Inl have
    "(vec_types env (coord_dtype t, dimensions t) = None \<and> e' = KeyError)
     \<or> (vec_types env (coord_dtype t, dimensions t) \<noteq> None
          \<and> length (AXIS_NAMES env) < dimensions t \<and> e' = IndexError)"
    by (auto simp: get_kernel_info_def split: option.splits if_splits)
  ultimately show ?thesis
    by auto
next
  case (Inr knl)
  then have "vec_types env (coord_dtype t, dimensions t) \<noteq> None"
    and "\<not> length (AXIS_NAMES env) < dimensions t"
    by (auto simp: get_kernel_info_def split: option.splits if_splits)
  moreover have "FMMTraversalBuilder_call env t h \<noteq> Some (Inl e)"
    unfolding FMMTraversalBuilder_call_kernels [OF assms Inr] by auto
  ultimately show ?thesis
    by simp
qed

theorem dimension_lookup_failure_witness:
  "is_pruned (hyper_tree\<lparr>dimensions := 1\<rparr>)
   \<and> vec_types pyopencl_env (coord_dtype (hyper_tree\<lparr>dimensions := 1\<rparr>),
        dimensions (hyper_tree\<lparr>dimensions := 1\<rparr>)) = None
   \<and> FMMTraversalBuilder_call pyopencl_env (hyper_tree\<lparr>dimensions := 1\<rparr>) []
       = Some (Inl KeyError)"
proof -
  have p: "is_pruned (hyper_tree\<lparr>dimensions := 1\<rparr>)"
    by (simp add: hyper_tree_def)
  have v: "vec_types pyopencl_env (coord_dtype (hyper_tree\<lparr>dimensions := 1\<rparr>),
        dimensions (hyper_tree\<lparr>dimensions := 1\<rparr>)) = None"
    by code_simp
  from dimension_lookup_failure [OF p, of pyopencl_env "[]" KeyError] p v show ?thesis
    by simp
qed

section \<open>The colleague walk\<close>

text \<open>
  In a tree with \<open>tree_structure\<close> the walk over the child slots of a box returns, and
  emits what the recursion \<open>colleagues_below\<close> emits.
\<close>

lemma colleagues_walk_unfold:
  "colleagues_walk t c level box_id stack w m out =
     (if child_id t m w \<noteq> 0 \<and> is_adjacent_or_overlapping t c level (child_id t m w)
      then (if length stack + 1 = level \<and> child_id t m w \<noteq> box_id
            then colleagues_resume t c level box_id stack w m (out @ [child_id t m w])
            else colleagues_walk t c level box_id ((w, m) # stack) (child_id t m w) 0 out)
      else colleagues_resume t c level box_id stack w m out)"
  by (subst colleagues_walk.simps)
    (simp add: colleagues_resume_def child_id_def Let_def)

lemma colleagues_resume_next:
  "m + 1 < 2 ^ dimensions t \<Longrightarrow>
     colleagues_resume t c level box_id stack w m out
       = colleagues_walk t c level box_id stack w (m + 1) out"
  by (simp add: colleagues_resume_def walk_advance.simps)

lemma colleagues_resume_pop:
  "\<not> m' + 1 < 2 ^ dimensions t \<Longrightarrow>
     colleagues_resume t c level box_id ((w, m) # stack) b m' out
       = colleagues_resume t c level box_id stack w m out"
  by (simp add: colleagues_resume_def walk_advance.simps [of t "(w, m) # stack"])

lemma colleagues_walk_slots:
  assumes desc: "\<And>m out. m < 2 ^ dimensions t \<Longrightarrow> child_id t m w \<noteq> 0 \<Longrightarrow>
        colleagues_walk t c level box_id ((w, m) # stack) (child_id t m w) 0 out
          = colleagues_resume t c level box_id ((w, m) # stack) (child_id t m w)
              (2 ^ dimensions t - 1)
              (out @ (case fuel of
                        0 \<Rightarrow> []
                      | Suc k \<Rightarrow> colleagues_below t c level box_id k (length stack + 1)
                                   (child_id t m w) [0..<2 ^ dimensions t]))"
  shows "m < 2 ^ dimensions t \<Longrightarrow>
     colleagues_walk t c level box_id stack w m out
       = colleagues_resume t c level box_id stack w (2 ^ dimensions t - 1)
           (out @ colleagues_below t c level box_id fuel (length stack) w
                    [m..<2 ^ dimensions t])"
proof (induction "(2::nat) ^ dimensions t - m" arbitrary: m out rule: less_induct)
  case less
  let ?C = "(2::nat) ^ dimensions t"
  let ?child = "child_id t m w"
  let ?rest = "colleagues_below t c level box_id fuel (length stack) w [Suc m..<?C]"
  let ?sub = "case fuel of
                0 \<Rightarrow> []
              | Suc k \<Rightarrow> colleagues_below t c level box_id k (length stack + 1) ?child [0..<?C]"
  have upt: "[m..<?C] = m # [Suc m..<?C]"
    using less.prems by (simp add: upt_conv_Cons)
  have after: "colleagues_resume t c level box_id stack w m out'
      = colleagues_resume t c level box_id stack w (?C - 1) (out' @ ?rest)" for out'
  proof (cases "m + 1 < ?C")
    case True
    then have "colleagues_resume t c level box_id stack w m out'
        = colleagues_walk t c level box_id stack w (m + 1) out'"
      by (rule colleagues_resume_next)
    also have "\<dots> = colleagues_resume t c level box_id stack w (?C - 1)
        (out' @ colleagues_below t c level box_id fuel (length stack) w [m + 1..<?C])"
      using True by (intro less.hyps) simp_all
    finally show ?thesis by simp
  next
    case False
    then have "m = ?C - 1" and "[Suc m..<?C] = []"
      using less.prems by simp_all
    then show ?thesis by simp
  qed
  show ?case
  proof (cases "?child \<noteq> 0 \<and> is_adjacent_or_overlapping t c level ?child")
    case False
    have "colleagues_walk t c level box_id stack w m out
        = colleagues_resume t c level box_id stack w m out"
      using False by (subst colleagues_walk_unfold) auto
    then show ?thesis
      using False by (auto simp add: after upt)
  next
    case adj: True
    show ?thesis
    proof (cases "length stack + 1 = level \<and> ?child \<noteq> box_id")
      case True
      have "colleagues_walk t c level box_id stack w m out
          = colleagues_resume t c level box_id stack w m (out @ [?child])"
        using adj True by (subst colleagues_walk_unfold) auto
      then show ?thesis
        using adj True by (auto simp add: after upt)
    next
      case False
      have "colleagues_walk t c level box_id stack w m out
          = colleagues_walk t c level box_id ((w, m) # stack) ?child 0 out"
        using adj False by (subst colleagues_walk_unfold) auto
      also have "\<dots> = colleagues_resume t c level box_id ((w, m) # stack) ?child (?C - 1)
          (out @ ?sub)"
        using less.prems adj by (intro desc) simp_all
      also have "\<dots> = colleagues_resume t c level box_id stack w m (out @ ?sub)"
        by (rule colleagues_resume_pop) simp
      also have "\<dots> = colleagues_resume t c level box_id stack w (?C - 1)
          ((out @ ?sub) @ ?rest)"
        by (rule after)
      finally show ?thesis
        using adj False by (auto simp add: upt)
    qed
  qed
qed

lemma tree_structure_child:
  assumes "tree_structure t" "b < nboxes t" "m < 2 ^ dimensions t"
  shows "child_id t m b < nboxes t"
    and "child_id t m b \<noteq> 0 \<Longrightarrow> box_levels t ! child_id t m b = box_levels t ! b + 1"
    and "child_id t m b \<noteq> 0 \<Longrightarrow> box_parent_ids t ! child_id t m b = b"
  using assms by (auto simp: tree_structure_def)

lemma tree_structure_level:
  "tree_structure t \<Longrightarrow> b < nboxes t \<Longrightarrow> box_levels t ! b < nlevels t"
  by (auto simp: tree_structure_def)

lemma colleagues_walk_below:
  assumes st: "tree_structure t"
  shows "w < nboxes t \<Longrightarrow> nlevels t \<le> box_levels t ! w + fuel + 1 \<Longrightarrow>
     m < 2 ^ dimensions t \<Longrightarrow>
     colleagues_walk t c level box_id stack w m out
       = colleagues_resume t c level box_id stack w (2 ^ dimensions t - 1)
           (out @ colleagues_below t c level box_id fuel (length stack) w
                    [m..<2 ^ dimensions t])"
proof (induction fuel arbitrary: w m stack out)
  case 0
  show ?case
  proof (rule colleagues_walk_slots [OF _ "0.prems"(3)])
    fix m' out'
    assume m': "m' < 2 ^ dimensions t" and ch: "child_id t m' w \<noteq> 0"
    from tree_structure_child [OF st "0.prems"(1) m'] ch
    have "child_id t m' w < nboxes t"
      and "box_levels t ! child_id t m' w = box_levels t ! w + 1"
      by simp_all
    with tree_structure_level [OF st, of "child_id t m' w"] "0.prems"(2)
    have False by simp
    then show "colleagues_walk t c level box_id ((w, m') # stack) (child_id t m' w) 0 out'
          = colleagues_resume t c level box_id ((w, m') # stack) (child_id t m' w)
              (2 ^ dimensions t - 1)
              (out' @ (case 0 of
                        0 \<Rightarrow> []
                      | Suc k \<Rightarrow> colleagues_below t c level box_id k (length stack + 1)
                                   (child_id t m' w) [0..<2 ^ dimensions t]))" ..
  qed
next
  case (Suc k)
  show ?case
  proof (rule colleagues_walk_slots [OF _ Suc.prems(3)])
    fix m' out'
    assume m': "m' < 2 ^ dimensions t" and ch: "child_id t m' w \<noteq> 0"
    from tree_structure_child [OF st Suc.prems(1) m'] ch
    have lt: "child_id t m' w < nboxes t"
      and lev: "box_levels t ! child_id t m' w = box_levels t ! w + 1"
      by simp_all
    have "colleagues_walk t c level box_id ((w, m') # stack) (child_id t m' w) 0 out'
        = colleagues_resume t c level box_id ((w, m') # stack) (child_id t m' w)
            (2 ^ dimensions t - 1)
            (out' @ colleagues_below t c level box_id k (length ((w, m') # stack))
                      (child_id t m' w) [0..<2 ^ dimensions t])"
      using lt lev Suc.prems(2) by (intro Suc.IH) simp_all
    then show "colleagues_walk t c level box_id ((w, m') # stack) (child_id t m' w) 0 out'
          = colleagues_resume t c level box_id ((w, m') # stack) (child_id t m' w)
              (2 ^ dimensions t - 1)
              (out' @ (case Suc k of
                        0 \<Rightarrow> []
                      | Suc k \<Rightarrow> colleagues_below t c level box_id k (length stack + 1)
                                   (child_id t m' w) [0..<2 ^ dimensions t]))"
      by simp
  qed
qed

lemma colleagues_generate_below:
  assumes "tree_structure t" "box_id \<noteq> 0"
  shows "colleagues_generate t box_id
           = Some (colleagues_below t (load_center t box_id) (box_levels t ! box_id) box_id
                     (nlevels t) 0 0 [0..<2 ^ dimensions t])"
proof -
  have "0 < nboxes t"
    using assms(1) by (simp add: tree_structure_def)
  then have "colleagues_walk t (load_center t box_id) (box_levels t ! box_id) box_id [] 0 0 []
      = colleagues_resume t (load_center t box_id) (box_levels t ! box_id) box_id [] 0
          (2 ^ dimensions t - 1)
          ([] @ colleagues_below t (load_center t box_id) (box_levels t ! box_id) box_id
                  (nlevels t) (length ([] :: (nat \<times> nat) list)) 0 [0..<2 ^ dimensions t])"
    by (intro colleagues_walk_below [OF assms(1)]) simp_all
  also have "\<dots> = Some (colleagues_below t (load_center t box_id) (box_levels t ! box_id) box_id
                     (nlevels t) 0 0 [0..<2 ^ dimensions t])"
    by (simp add: colleagues_resume_def walk_advance.simps)
  finally show ?thesis
    using assms(2) by (simp add: colleagues_generate_def Let_def)
qed

subsection \<open>What the walk emits\<close>

lemma colleagues_below_sound:
  "x \<in> set (colleagues_below t c level box_id fuel wl w ms) \<Longrightarrow> tree_structure t \<Longrightarrow>
     w < nboxes t \<Longrightarrow> box_levels t ! w = wl \<Longrightarrow> set ms \<subseteq> {0..<2 ^ dimensions t} \<Longrightarrow>
     x \<noteq> box_id \<and> x \<noteq> 0 \<and> x < nboxes t \<and> box_levels t ! x = level
     \<and> is_adjacent_or_overlapping t c level x"
proof (induction t c level box_id fuel wl w ms rule: colleagues_below.induct)
  case (1 t c level box_id fuel wl w)
  then show ?case by simp
next
  case (2 t c level box_id fuel wl w m ms)
  let ?child = "child_id t m w"
  from "2.prems" have m: "m < 2 ^ dimensions t" and ms: "set ms \<subseteq> {0..<2 ^ dimensions t}"
    by simp_all
  note ch = tree_structure_child [OF "2.prems"(2) "2.prems"(3) m]
  from "2.prems"(1) consider
      (emit) "?child \<noteq> 0" "is_adjacent_or_overlapping t c level ?child"
        "wl + 1 = level" "?child \<noteq> box_id" "x = ?child"
    | (sub) k where "?child \<noteq> 0" "is_adjacent_or_overlapping t c level ?child"
        "\<not> (wl + 1 = level \<and> ?child \<noteq> box_id)" "fuel = Suc k"
        "x \<in> set (colleagues_below t c level box_id k (wl + 1) ?child [0..<2 ^ dimensions t])"
    | (rest) "x \<in> set (colleagues_below t c level box_id fuel wl w ms)"
    by (auto split: if_splits nat.splits)
  then show ?case
  proof cases
    case emit
    then show ?thesis
      using ch "2.prems"(4) by simp
  next
    case sub
    have "?child \<noteq> 0 \<and> is_adjacent_or_overlapping t c level ?child"
      using sub by simp
    from "2.IH"(1) [OF this sub(3) sub(4) sub(5) "2.prems"(2)] ch sub(1) "2.prems"(4)
    show ?thesis by simp
  next
    case rest
    from "2.IH"(2) [OF rest "2.prems"(2) "2.prems"(3) "2.prems"(4) ms]
    show ?thesis .
  qed
qed



subsection \<open>Ancestors\<close>

lemma tree_structure_parent:
  assumes "tree_structure t" "b < nboxes t" "b \<noteq> 0"
  shows "box_parent_ids t ! b < nboxes t"
    and "\<exists>m<2 ^ dimensions t. child_id t m (box_parent_ids t ! b) = b"
    and "box_levels t ! b = box_levels t ! (box_parent_ids t ! b) + 1"
proof -
  from assms show p: "box_parent_ids t ! b < nboxes t"
    by (auto simp: tree_structure_def)
  from assms have "\<exists>m\<in>{0..<2 ^ dimensions t}. child_id t m (box_parent_ids t ! b) = b"
    by (simp add: tree_structure_def)
  then show "\<exists>m<2 ^ dimensions t. child_id t m (box_parent_ids t ! b) = b"
    by (simp add: Bex_def)
  then obtain m where "m < 2 ^ dimensions t" "child_id t m (box_parent_ids t ! b) = b"
    by blast
  with tree_structure_child(2) [OF assms(1) p, of m] assms(3)
  show "box_levels t ! b = box_levels t ! (box_parent_ids t ! b) + 1"
    by simp
qed

lemma tree_structure_root:
  assumes "tree_structure t"
  shows "0 < nboxes t" "box_levels t ! 0 = 0" "box_parent_ids t ! 0 = 0"
  using assms by (auto simp: tree_structure_def)

lemma level_0_root:
  assumes "tree_structure t" "b < nboxes t" "box_levels t ! b = 0"
  shows "b = 0"
  using tree_structure_parent(3) [OF assms(1,2)] assms(3) by auto

lemma ancestor_less:
  assumes "tree_structure t" "b < nboxes t"
  shows "ancestor t b k < nboxes t"
proof (induction k)
  case 0
  then show ?case using assms by simp
next
  case (Suc k)
  then show ?case
    using tree_structure_parent(1) [OF assms(1), of "ancestor t b k"]
      tree_structure_root [OF assms(1)]
    by (cases "ancestor t b k = 0") simp_all
qed

lemma ancestor_level:
  assumes "tree_structure t" "b < nboxes t"
  shows "k \<le> box_levels t ! b \<Longrightarrow> box_levels t ! ancestor t b k = box_levels t ! b - k"
proof (induction k)
  case 0
  then show ?case by simp
next
  case (Suc k)
  then have lev: "box_levels t ! ancestor t b k = box_levels t ! b - k"
    by simp
  have "ancestor t b k \<noteq> 0"
  proof
    assume "ancestor t b k = 0"
    with lev tree_structure_root(2) [OF assms(1)] Suc.prems show False
      by simp
  qed
  from tree_structure_parent(3) [OF assms(1) ancestor_less [OF assms] this] lev
  show ?case by simp
qed

lemma ancestor_root:
  assumes "tree_structure t" "b < nboxes t"
  shows "ancestor t b (box_levels t ! b) = 0"
  using level_0_root [OF assms(1) ancestor_less [OF assms]] ancestor_level [OF assms, of "box_levels t ! b"]
  by simp

lemma ancestor_add: "ancestor t (ancestor t b j) k = ancestor t b (j + k)"
  by (induction k) simp_all

subsection \<open>Every adjacent box of the level is found\<close>

lemma colleagues_below_set:
  "set (colleagues_below t c level box_id fuel wl w ms)
     = (\<Union>m\<in>set ms. set (colleagues_below t c level box_id fuel wl w [m]))"
  by (induction ms) auto

lemma colleagues_below_complete:
  assumes st: "tree_structure t" and b: "b < nboxes t" and bb: "b \<noteq> box_id"
    and adj: "\<And>j. j < box_levels t ! b \<Longrightarrow> is_adjacent_or_overlapping t c (box_levels t ! b) (ancestor t b j)"
  shows "0 < n \<Longrightarrow> n \<le> box_levels t ! b \<Longrightarrow> nlevels t \<le> box_levels t ! b - n + fuel + 1 \<Longrightarrow>
     b \<in> set (colleagues_below t c (box_levels t ! b) box_id fuel (box_levels t ! b - n)
                (ancestor t b n) [0..<2 ^ dimensions t])"
proof (induction n arbitrary: fuel)
  case 0
  then show ?case by simp
next
  case (Suc n)
  let ?L = "box_levels t ! b"
  let ?q = "ancestor t b n"
  let ?w = "ancestor t b (Suc n)"
  have q: "?q < nboxes t"
    by (rule ancestor_less [OF st b])
  have levq: "box_levels t ! ?q = ?L - n"
    using Suc.prems by (intro ancestor_level [OF st b]) simp
  have q0: "?q \<noteq> 0"
  proof
    assume "?q = 0"
    with levq tree_structure_root(2) [OF st] Suc.prems show False
      by simp
  qed
  from tree_structure_parent(2) [OF st q q0] obtain m where
    m: "m < 2 ^ dimensions t" and child: "child_id t m ?w = ?q"
    by auto
  have adjq: "is_adjacent_or_overlapping t c ?L ?q"
    using Suc.prems by (intro adj) simp
  have "b \<in> set (colleagues_below t c ?L box_id fuel (?L - Suc n) ?w [m])"
  proof (cases "n = 0")
    case True
    then show ?thesis
      using child q0 adjq bb Suc.prems by simp
  next
    case False
    from tree_structure_level [OF st q] levq Suc.prems obtain k where k: "fuel = Suc k"
      by (cases fuel) auto
    have "b \<in> set (colleagues_below t c ?L box_id k (?L - n) ?q [0..<2 ^ dimensions t])"
      using False Suc.prems k by (intro Suc.IH) simp_all
    moreover have "?L - Suc n + 1 = ?L - n"
      using Suc.prems by simp
    moreover have "?L - n \<noteq> ?L"
      using False Suc.prems by simp
    ultimately show ?thesis
      using child q0 adjq k by simp
  qed
  then show ?case
    using m by (subst colleagues_below_set) auto
qed

section \<open>Geometry of a well-formed tree\<close>

lemma spec_size_Suc: "spec_size t l = 2 * spec_size t (Suc l)"
  by (simp add: spec_size_def)

lemma spec_size_nonneg: "0 \<le> root_extent t \<Longrightarrow> 0 \<le> spec_size t l"
  by (simp add: spec_size_def)

lemma spec_size_antimono:
  assumes "0 \<le> root_extent t" "l \<le> l'"
  shows "spec_size t l' \<le> spec_size t l"
proof -
  have "(2::rat) ^ l \<le> 2 ^ l'"
    using assms(2) by (intro power_increasing) simp_all
  then show ?thesis
    using assms(1) unfolding spec_size_def by (intro divide_left_mono) simp_all
qed

lemma adjacent_sym: "adjacent t a b = adjacent t b a"
proof -
  have "foldl (\<lambda>m i. max m \<bar>load_center t a ! i - load_center t b ! i\<bar>) (0::rat) xs
      = foldl (\<lambda>m i. max m \<bar>load_center t b ! i - load_center t a ! i\<bar>) 0 xs" for xs
    by (simp add: abs_minus_commute)
  then show ?thesis
    by (simp add: adjacent_def is_adjacent_or_overlapping_def Let_def add.commute max.commute)
qed

lemma adjacent_iff_bound:
  assumes d: "0 < dimensions t"
    and la: "box_levels t ! a < 31" and lb: "box_levels t ! b < 31"
  shows "adjacent t a b \<longleftrightarrow>
     (\<forall>i<dimensions t. \<bar>load_center t a ! i - load_center t b ! i\<bar>
        \<le> 1 / 2 * (spec_size t (box_levels t ! a) + spec_size t (box_levels t ! b))
          + 1 / 2 * spec_size t (max (box_levels t ! a) (box_levels t ! b)))"
proof -
  have "finite ((\<lambda>i. \<bar>load_center t a ! i - load_center t b ! i\<bar>) ` {0..<dimensions t})"
    and "(\<lambda>i. \<bar>load_center t a ! i - load_center t b ! i\<bar>) ` {0..<dimensions t} \<noteq> {}"
    using d by simp_all
  then show ?thesis
    unfolding adjacent_iff_spec_adjacent [OF assms] spec_adjacent_def linf_dist_def
    by (subst Max_le_iff) auto
qed

lemma tree_geometry_centers: "tree_geometry t \<Longrightarrow> tree_centers t"
  by (simp add: tree_geometry_def)

lemma tree_centers_child:
  assumes "tree_centers t" "b < nboxes t" "m < 2 ^ dimensions t" "child_id t m b \<noteq> 0"
    "i < dimensions t"
  shows "\<bar>load_center t (child_id t m b) ! i - load_center t b ! i\<bar>
           = spec_size t (box_levels t ! child_id t m b) / 2"
  using assms by (auto simp: tree_centers_def)

lemma tree_centers_parent:
  assumes st: "tree_structure t" and geo: "tree_centers t"
    and b: "b < nboxes t" "b \<noteq> 0" and i: "i < dimensions t"
  shows "\<bar>load_center t b ! i - load_center t (box_parent_ids t ! b) ! i\<bar>
           = spec_size t (box_levels t ! b) / 2"
proof -
  from tree_structure_parent(2) [OF st b] obtain m where
    "m < 2 ^ dimensions t" "child_id t m (box_parent_ids t ! b) = b"
    by blast
  with tree_centers_child [OF geo tree_structure_parent(1) [OF st b], of m i] b(2) i
  show ?thesis by simp
qed

lemma center_ancestor:
  assumes st: "tree_structure t" and geo: "tree_centers t"
    and b: "b < nboxes t" and i: "i < dimensions t"
  shows "k \<le> box_levels t ! b \<Longrightarrow>
     \<bar>load_center t (ancestor t b k) ! i - load_center t b ! i\<bar>
       \<le> (spec_size t (box_levels t ! b - k) - spec_size t (box_levels t ! b)) / 2"
proof (induction k)
  case 0
  then show ?case by simp
next
  case (Suc k)
  let ?q = "ancestor t b k"
  have q: "?q < nboxes t"
    by (rule ancestor_less [OF st b])
  have levq: "box_levels t ! ?q = box_levels t ! b - k"
    using Suc.prems by (intro ancestor_level [OF st b]) simp
  have q0: "?q \<noteq> 0"
  proof
    assume "?q = 0"
    with levq tree_structure_root(2) [OF st] Suc.prems show False
      by simp
  qed
  define cq cp cb s0 s1 sb where "cq = load_center t ?q ! i"
    and "cp = load_center t (box_parent_ids t ! ?q) ! i" and "cb = load_center t b ! i"
    and "s0 = spec_size t (box_levels t ! b - k)"
    and "s1 = spec_size t (box_levels t ! b - Suc k)"
    and "sb = spec_size t (box_levels t ! b)"
  have step: "\<bar>cq - cp\<bar> = s0 / 2"
    using tree_centers_parent [OF st geo q q0 i] levq
    by (simp add: cq_def cp_def s0_def)
  have ih: "\<bar>cq - cb\<bar> \<le> (s0 - sb) / 2"
    using Suc by (simp add: cq_def cb_def s0_def sb_def)
  have "box_levels t ! b - k = Suc (box_levels t ! b - Suc k)"
    using Suc.prems by simp
  then have "s1 = 2 * s0"
    using spec_size_Suc [of t "box_levels t ! b - Suc k"] by (simp add: s0_def s1_def)
  with step ih have "\<bar>cp - cb\<bar> \<le> (s1 - sb) / 2"
    by (simp add: abs_if split: if_splits)
  then show ?case
    by (simp add: cp_def cb_def s1_def sb_def)
qed

lemma tree_geometry_levels:
  assumes "tree_structure t" "tree_geometry t" "b < nboxes t"
  shows "box_levels t ! b < 31"
  using tree_structure_level [OF assms(1,3)] assms(2) by (simp add: tree_geometry_def tree_centers_def)

lemma adjacent_ancestor:
  assumes st: "tree_structure t" and geo: "tree_geometry t"
    and a: "a < nboxes t" and b: "b < nboxes t"
    and adj: "adjacent t a b" and k: "k \<le> box_levels t ! b"
  shows "adjacent t a (ancestor t b k)"
proof -
  let ?la = "box_levels t ! a" and ?lb = "box_levels t ! b"
  let ?p = "ancestor t b k"
  have d: "0 < dimensions t" and re: "0 \<le> root_extent t"
    using geo by (simp_all add: tree_geometry_def tree_centers_def)
  have p: "?p < nboxes t"
    by (rule ancestor_less [OF st b])
  have levp: "box_levels t ! ?p = ?lb - k"
    by (rule ancestor_level [OF st b k])
  note lev = tree_geometry_levels [OF st geo]
  define sa sb sp mb mp where "sa = spec_size t ?la" and "sb = spec_size t ?lb"
    and "sp = spec_size t (?lb - k)" and "mb = spec_size t (max ?la ?lb)"
    and "mp = spec_size t (max ?la (?lb - k))"
  have mono: "mb \<le> mp"
    unfolding mb_def mp_def by (intro spec_size_antimono [OF re]) auto
  have "\<bar>load_center t a ! i - load_center t ?p ! i\<bar>
      \<le> 1 / 2 * (spec_size t ?la + spec_size t (?lb - k))
        + 1 / 2 * spec_size t (max ?la (?lb - k))" if i: "i < dimensions t" for i
  proof -
    define ca cb cp where "ca = load_center t a ! i" and "cb = load_center t b ! i"
      and "cp = load_center t ?p ! i"
    from adj i have "\<bar>ca - cb\<bar> \<le> 1 / 2 * (sa + sb) + 1 / 2 * mb"
      by (simp add: adjacent_iff_bound [OF d lev [OF a] lev [OF b]]
          ca_def cb_def sa_def sb_def mb_def)
    moreover have "\<bar>cp - cb\<bar> \<le> (sp - sb) / 2"
      using center_ancestor [OF st tree_geometry_centers [OF geo] b i k] by (simp add: cp_def cb_def sp_def sb_def)
    ultimately have "\<bar>ca - cp\<bar> \<le> 1 / 2 * (sa + sp) + 1 / 2 * mp"
      using mono by (auto simp add: abs_if field_simps split: if_splits)
    then show ?thesis
      by (simp add: ca_def cp_def sa_def sp_def mp_def)
  qed
  then show ?thesis
    using levp by (simp add: adjacent_iff_bound [OF d lev [OF a] lev [OF p]])
qed

section \<open>Colleagues\<close>

text \<open>
  The colleagues of a box other than the root are the other boxes of its level that are
  adjacent to it.
\<close>

lemma colleagues_generate_set:
  assumes st: "tree_structure t" and geo: "tree_geometry t"
    and a: "a < nboxes t" and a0: "a \<noteq> 0"
  shows "\<exists>xs. colleagues_generate t a = Some xs
     \<and> set xs = {b. b < nboxes t \<and> b \<noteq> a \<and> box_levels t ! b = box_levels t ! a
                  \<and> adjacent t a b}"
proof -
  let ?xs = "colleagues_below t (load_center t a) (box_levels t ! a) a (nlevels t) 0 0
               [0..<2 ^ dimensions t]"
  have gen: "colleagues_generate t a = Some ?xs"
    by (rule colleagues_generate_below [OF st a0])
  have "b \<in> set ?xs \<longleftrightarrow>
      b < nboxes t \<and> b \<noteq> a \<and> box_levels t ! b = box_levels t ! a \<and> adjacent t a b" for b
  proof
    assume "b \<in> set ?xs"
    from colleagues_below_sound [OF this st tree_structure_root(1) [OF st]
        tree_structure_root(2) [OF st]]
    show "b < nboxes t \<and> b \<noteq> a \<and> box_levels t ! b = box_levels t ! a \<and> adjacent t a b"
      by (simp add: adjacent_def)
  next
    assume rhs: "b < nboxes t \<and> b \<noteq> a \<and> box_levels t ! b = box_levels t ! a \<and> adjacent t a b"
    then have b: "b < nboxes t" and ba: "b \<noteq> a" and lev: "box_levels t ! b = box_levels t ! a"
      and adj: "adjacent t a b"
      by simp_all
    have pos: "0 < box_levels t ! b"
      using tree_structure_parent(3) [OF st a a0] lev by simp
    have anc: "is_adjacent_or_overlapping t (load_center t a) (box_levels t ! b) (ancestor t b j)"
      if "j < box_levels t ! b" for j
      using adjacent_ancestor [OF st geo a b adj, of j] that lev by (simp add: adjacent_def)
    have "b \<in> set (colleagues_below t (load_center t a) (box_levels t ! b) a (nlevels t)
        (box_levels t ! b - box_levels t ! b) (ancestor t b (box_levels t ! b))
        [0..<2 ^ dimensions t])"
      using pos by (intro colleagues_below_complete [OF st b ba anc]) simp_all
    then show "b \<in> set ?xs"
      by (simp add: ancestor_root [OF st b] lev [symmetric])
  qed
  with gen show ?thesis by blast
qed


lemma refined_tree_wf: "tree_structure refined_tree \<and> tree_geometry refined_tree"
  by code_simp


text \<open>
  C6. The root has no colleagues, and every box emitted into the colleagues of a box
  \<open>a\<close> is on the level of \<open>a\<close> and is not \<open>a\<close>. The walk returns.
\<close>

theorem colleagues_level_and_distinct:
  assumes "tree_structure t"
  shows "colleagues_generate t 0 = Some []
     \<and> (\<exists>xs. colleagues_generate t a = Some xs
           \<and> (\<forall>x\<in>set xs. box_levels t ! x = box_levels t ! a \<and> x \<noteq> a))"
proof -
  have root: "colleagues_generate t 0 = Some []"
    by (simp add: colleagues_generate_def)
  show ?thesis
  proof (cases "a = 0")
    case True
    with root show ?thesis by simp
  next
    case False
    let ?xs = "colleagues_below t (load_center t a) (box_levels t ! a) a (nlevels t) 0 0
                 [0..<2 ^ dimensions t]"
    have "box_levels t ! x = box_levels t ! a \<and> x \<noteq> a" if "x \<in> set ?xs" for x
      using colleagues_below_sound [OF that assms tree_structure_root(1) [OF assms]
          tree_structure_root(2) [OF assms]]
      by simp
    with colleagues_generate_below [OF assms False] root show ?thesis
      by blast
  qed
qed

lemma refined_tree_colleagues_5: "colleagues_generate refined_tree 5 = Some [6, 7, 8]"
  by code_simp

theorem colleagues_level_and_distinct_witness:
  "tree_structure refined_tree
   \<and> colleagues_generate refined_tree 0 = Some []
   \<and> colleagues_generate refined_tree 5 = Some [6, 7, 8]
   \<and> box_levels refined_tree ! 6 = box_levels refined_tree ! 5 \<and> (6::nat) \<noteq> 5
   \<and> box_levels refined_tree ! 7 = box_levels refined_tree ! 5 \<and> (7::nat) \<noteq> 5
   \<and> box_levels refined_tree ! 8 = box_levels refined_tree ! 5 \<and> (8::nat) \<noteq> 5"
proof -
  from colleagues_level_and_distinct [OF conjunct1 [OF refined_tree_wf], of 5]
  have "colleagues_generate refined_tree 0 = Some []"
    and "\<exists>xs. colleagues_generate refined_tree 5 = Some xs
           \<and> (\<forall>x\<in>set xs. box_levels refined_tree ! x = box_levels refined_tree ! 5 \<and> x \<noteq> 5)"
    by blast+
  then show ?thesis
    using refined_tree_wf refined_tree_colleagues_5 by auto
qed

section \<open>The arrays of the colleague stage\<close>

lemma those_map_Some:
  "(\<And>x. x \<in> set xs \<Longrightarrow> f x = Some (g x)) \<Longrightarrow> those (map f xs) = Some (map g xs)"
  by (induction xs) simp_all

lemma those_map_nth:
  "those (map f xs) = Some ys \<Longrightarrow> length ys = length xs \<and> (\<forall>i<length xs. f (xs ! i) = Some (ys ! i))"
proof (induction xs arbitrary: ys)
  case Nil
  then show ?case by simp
next
  case (Cons x xs)
  then show ?case
    by (auto split: option.splits simp: nth_Cons split: nat.splits)
qed

lemma csr_starts_nth:
  "p \<le> length outs \<Longrightarrow> csr_starts outs ! p = length (concat (take p outs))"
  unfolding csr_starts_def by (simp add: nth_map [of p] del: upt_Suc)

lemma csr_slice:
  assumes "p < length outs"
  shows "map (\<lambda>i. concat outs ! i) [csr_starts outs ! p..<csr_starts outs ! (p + 1)] = outs ! p"
proof -
  let ?pre = "concat (take p outs)"
  have split: "concat outs = ?pre @ outs ! p @ concat (drop (Suc p) outs)"
    using assms by (metis append_take_drop_id concat_append Cons_nth_drop_Suc concat.simps(2))
  have s0: "csr_starts outs ! p = length ?pre"
    using assms by (simp add: csr_starts_nth)
  have s1: "csr_starts outs ! Suc p = length ?pre + length (outs ! p)"
    using assms by (simp add: csr_starts_nth take_Suc_conv_app_nth)
  have "map (\<lambda>i. concat outs ! i) [length ?pre..<length ?pre + length (outs ! p)]
      = map (\<lambda>k. concat outs ! (length ?pre + k)) [0..<length (outs ! p)]"
    by (simp add: map_add_upt [symmetric] add.commute)
  also have "\<dots> = map (\<lambda>k. (outs ! p) ! k) [0..<length (outs ! p)]"
    by (subst split) (simp add: nth_append)
  also have "\<dots> = outs ! p"
    by (rule map_nth)
  finally show ?thesis
    by (simp add: s0 s1)
qed

lemma colleagues_generate_Some:
  assumes "tree_structure t"
  shows "\<exists>xs. colleagues_generate t a = Some xs"
  using colleagues_generate_below [OF assms, of a]
  by (cases "a = 0") (simp_all add: colleagues_generate_def)

lemma colleagues_of_boxes_Some:
  assumes "tree_structure t"
  shows "\<exists>outs. colleagues_of_boxes t = Some outs \<and> length outs = nboxes t
           \<and> (\<forall>p<nboxes t. colleagues_generate t p = Some (outs ! p))"
proof -
  have "colleagues_generate t x = Some (the (colleagues_generate t x))" for x
    using colleagues_generate_Some [OF assms, of x] by auto
  then have "colleagues_of_boxes t = Some (map (\<lambda>x. the (colleagues_generate t x)) [0..<nboxes t])"
    unfolding colleagues_of_boxes_def by (intro those_map_Some)
  moreover have "colleagues_generate t p = Some (map (\<lambda>x. the (colleagues_generate t x)) [0..<nboxes t] ! p)"
    if "p < nboxes t" for p
    using that colleagues_generate_Some [OF assms, of p] by auto
  ultimately show ?thesis
    by (intro exI [of _ "map (\<lambda>x. the (colleagues_generate t x)) [0..<nboxes t]"]) simp
qed

lemma sep_siblings_generate_csr:
  assumes "box_parent_ids t ! b < length outs" and "box_parent_ids t ! b \<noteq> b"
  shows "sep_siblings_generate t (csr_starts outs) (concat outs) b
     = concat (map (sep_siblings_of_colleague t (load_center t b) (box_levels t ! b))
                 (outs ! (box_parent_ids t ! b)))"
proof -
  let ?p = "box_parent_ids t ! b"
  have "map (sep_siblings_of_colleague t (load_center t b) (box_levels t ! b))
          (map (\<lambda>i. concat outs ! i) [csr_starts outs ! ?p..<csr_starts outs ! (?p + 1)])
      = map (sep_siblings_of_colleague t (load_center t b) (box_levels t ! b)) (outs ! ?p)"
    by (simp only: csr_slice [OF assms(1)])
  then show ?thesis
    using assms(2) by (simp add: sep_siblings_generate_def Let_def comp_def)
qed

section \<open>Well-separated siblings\<close>

lemma concat_map_if:
  "concat (map (\<lambda>x. if P x then [f x] else []) xs) = map f (filter P xs)"
  by (induction xs) simp_all

lemma sep_siblings_of_colleague_filter:
  "sep_siblings_of_colleague t c level
     = (\<lambda>P. filter (\<lambda>s. \<not> is_adjacent_or_overlapping t c level s)
              (map (\<lambda>m. child_id t m P) [0..<2 ^ dimensions t]))"
  unfolding sep_siblings_of_colleague_def Let_def child_id_def
  by (rule ext) (simp add: concat_map_if filter_map comp_def)

lemma adjacent_self:
  assumes "tree_structure t" "tree_geometry t" "b < nboxes t"
  shows "adjacent t b b"
proof -
  have "0 < dimensions t" "0 \<le> root_extent t"
    using assms(2) by (simp_all add: tree_geometry_def tree_centers_def)
  then show ?thesis
    using tree_geometry_levels [OF assms]
    by (simp add: adjacent_iff_bound spec_size_nonneg)
qed

lemma adjacent_root:
  assumes "tree_structure t" "tree_geometry t" "b < nboxes t"
  shows "adjacent t b 0"
  using adjacent_ancestor [OF assms(1,2,3,3) adjacent_self [OF assms], of "box_levels t ! b"]
    ancestor_root [OF assms(1,3)]
  by simp

lemma adjacent_sibling:
  assumes st: "tree_structure t" and geo: "tree_geometry t"
    and b: "b < nboxes t" "b \<noteq> 0" and m: "m < 2 ^ dimensions t"
    and c0: "child_id t m (box_parent_ids t ! b) \<noteq> 0"
  shows "adjacent t b (child_id t m (box_parent_ids t ! b))"
proof -
  let ?p = "box_parent_ids t ! b"
  let ?c = "child_id t m ?p"
  have d: "0 < dimensions t" and re: "0 \<le> root_extent t"
    using geo by (simp_all add: tree_geometry_def tree_centers_def)
  have p: "?p < nboxes t"
    by (rule tree_structure_parent(1) [OF st b])
  have c: "?c < nboxes t" and levc: "box_levels t ! ?c = box_levels t ! ?p + 1"
    using tree_structure_child [OF st p m] c0 by simp_all
  have levb: "box_levels t ! b = box_levels t ! ?p + 1"
    by (rule tree_structure_parent(3) [OF st b])
  define s where "s = spec_size t (box_levels t ! ?p + 1)"
  have s0: "0 \<le> s"
    unfolding s_def by (rule spec_size_nonneg [OF re])
  have "\<bar>load_center t b ! i - load_center t ?c ! i\<bar> \<le> 1 / 2 * (s + s) + 1 / 2 * s"
    if i: "i < dimensions t" for i
  proof -
    define cb cc cp where "cb = load_center t b ! i" and "cc = load_center t ?c ! i"
      and "cp = load_center t ?p ! i"
    have "\<bar>cb - cp\<bar> = s / 2"
      using tree_centers_parent [OF st tree_geometry_centers [OF geo] b i] levb by (simp add: cb_def cp_def s_def)
    moreover have "\<bar>cc - cp\<bar> = s / 2"
      using tree_centers_child [OF tree_geometry_centers [OF geo] p m c0 i] levc by (simp add: cc_def cp_def s_def)
    ultimately show ?thesis
      using s0 by (auto simp add: abs_if field_simps cb_def [symmetric] cc_def [symmetric]
          split: if_splits)
  qed
  then show ?thesis
    using levb levc
    by (simp add: adjacent_iff_bound [OF d tree_geometry_levels [OF st geo b(1)]
          tree_geometry_levels [OF st geo c]] s_def)
qed


lemma colleagues_generate_not_self:
  assumes "tree_structure t" "colleagues_generate t a = Some xs"
  shows "a \<notin> set xs"
proof (cases "a = 0")
  case True
  with assms(2) show ?thesis by (simp add: colleagues_generate_def)
next
  case False
  from colleagues_generate_below [OF assms(1) False] assms(2)
  have xs: "xs = colleagues_below t (load_center t a) (box_levels t ! a) a (nlevels t) 0 0
                  [0..<2 ^ dimensions t]"
    by simp
  show ?thesis
  proof
    assume "a \<in> set xs"
    from colleagues_below_sound [OF this [unfolded xs] assms(1)
        tree_structure_root(1) [OF assms(1)] tree_structure_root(2) [OF assms(1)]]
    show False by simp
  qed
qed

text \<open>
  Within 31 levels: for every box \<open>b\<close> other than the root of a well-formed tree, list 2
  of \<open>b\<close> consists of the children of the colleagues of the parent of \<open>b\<close> that are
  not adjacent to \<open>b\<close>, in the order of the colleagues and of the child slots; the empty
  slots, read as box 0, are adjacent to \<open>b\<close> and are not emitted. The parent is not
  among its own colleagues, and its children are all adjacent to \<open>b\<close>.
\<close>

lemma sep_siblings_of_parent_colleagues:
  assumes st: "tree_structure t" and geo: "tree_geometry t"
    and b: "b < nboxes t" and b0: "b \<noteq> 0"
  shows "\<exists>colls sibs.
       colleagues_generate t (box_parent_ids t ! b) = Some colls
     \<and> sep_siblings_of t b = Some sibs
     \<and> sibs = concat (map (\<lambda>P. filter (\<lambda>c. \<not> adjacent t b c)
                                 (map (\<lambda>m. child_id t m P) [0..<2 ^ dimensions t])) colls)
     \<and> 0 \<notin> set sibs
     \<and> box_parent_ids t ! b \<notin> set colls
     \<and> (\<forall>m<2 ^ dimensions t. child_id t m (box_parent_ids t ! b) \<noteq> 0 \<longrightarrow>
           adjacent t b (child_id t m (box_parent_ids t ! b)))"
proof -
  let ?p = "box_parent_ids t ! b"
  from colleagues_of_boxes_Some [OF st] obtain outs where
    outs: "colleagues_of_boxes t = Some outs" "length outs = nboxes t"
      "\<forall>p<nboxes t. colleagues_generate t p = Some (outs ! p)"
    by blast
  have p: "?p < nboxes t"
    by (rule tree_structure_parent(1) [OF st b b0])
  have pb: "?p \<noteq> b"
    using tree_structure_parent(3) [OF st b b0] by auto
  let ?sibs = "concat (map (\<lambda>P. filter (\<lambda>c. \<not> adjacent t b c)
                                 (map (\<lambda>m. child_id t m P) [0..<2 ^ dimensions t])) (outs ! ?p))"
  have colls: "colleagues_generate t ?p = Some (outs ! ?p)"
    using outs(3) p by simp
  have "sep_siblings_generate t (csr_starts outs) (concat outs) b = ?sibs"
    using p pb outs(2)
    by (simp add: sep_siblings_generate_csr sep_siblings_of_colleague_filter adjacent_def)
  then have sibs: "sep_siblings_of t b = Some ?sibs"
    by (simp add: sep_siblings_of_def outs(1))
  have zero: "0 \<notin> set ?sibs"
    using adjacent_root [OF st geo b] by auto
  have self: "?p \<notin> set (outs ! ?p)"
    by (rule colleagues_generate_not_self [OF st colls])
  have "adjacent t b (child_id t m ?p)"
    if "m < 2 ^ dimensions t" "child_id t m ?p \<noteq> 0" for m
    using that by (intro adjacent_sibling [OF st geo b b0])
  with colls sibs zero self show ?thesis
    by blast
qed

lemma refined_tree_sep_siblings_5: "sep_siblings_of refined_tree 5 = Some [9, 10, 11, 12]"
  by code_simp

lemma sep_siblings_of_parent_colleagues_refined_tree:
  "tree_structure refined_tree \<and> tree_geometry refined_tree
   \<and> 5 < nboxes refined_tree \<and> (5::nat) \<noteq> 0
   \<and> sep_siblings_of refined_tree 5 = Some [9, 10, 11, 12]
   \<and> (\<exists>colls. colleagues_generate refined_tree (box_parent_ids refined_tree ! 5) = Some colls
         \<and> box_parent_ids refined_tree ! 5 \<notin> set colls
         \<and> [9, 10, 11, 12] = concat (map (\<lambda>P. filter (\<lambda>c. \<not> adjacent refined_tree 5 c)
               (map (\<lambda>m. child_id refined_tree m P) [0..<2 ^ dimensions refined_tree])) colls))"
proof -
  have n: "5 < nboxes refined_tree"
    by (simp add: refined_tree_def)
  from sep_siblings_of_parent_colleagues [OF conjunct1 [OF refined_tree_wf]
      conjunct2 [OF refined_tree_wf] n]
  obtain colls sibs where
    "colleagues_generate refined_tree (box_parent_ids refined_tree ! 5) = Some colls"
    "sep_siblings_of refined_tree 5 = Some sibs"
    "sibs = concat (map (\<lambda>P. filter (\<lambda>c. \<not> adjacent refined_tree 5 c)
               (map (\<lambda>m. child_id refined_tree m P) [0..<2 ^ dimensions refined_tree])) colls)"
    "box_parent_ids refined_tree ! 5 \<notin> set colls"
    by auto
  with refined_tree_sep_siblings_5 refined_tree_wf n show ?thesis
    by auto
qed

text \<open>
  So within 31 levels list 2 is the list of the specification: the children of the parent
  add nothing to it.
\<close>

lemma colleagues_generate_bound:
  assumes "tree_structure t" "colleagues_generate t a = Some xs" "x \<in> set xs"
  shows "x < nboxes t"
proof (cases "a = 0")
  case True
  with assms(2,3) show ?thesis by (simp add: colleagues_generate_def)
next
  case False
  from colleagues_generate_below [OF assms(1) False] assms(2)
  have xs: "xs = colleagues_below t (load_center t a) (box_levels t ! a) a (nlevels t) 0 0
                  [0..<2 ^ dimensions t]"
    by simp
  from colleagues_below_sound [OF assms(3) [unfolded xs] assms(1)
      tree_structure_root(1) [OF assms(1)] tree_structure_root(2) [OF assms(1)]]
  show ?thesis by simp
qed

lemma sep_siblings_refines_spec:
  assumes st: "tree_structure t" and geo: "tree_geometry t"
    and b: "b < nboxes t" and b0: "b \<noteq> 0"
  shows "\<exists>colls. colleagues_generate t (box_parent_ids t ! b) = Some colls
           \<and> sep_siblings_of t b = Some (spec_sep_siblings t colls b)"
proof -
  let ?p = "box_parent_ids t ! b"
  let ?ch = "\<lambda>P. map (\<lambda>m. child_id t m P) [0..<2 ^ dimensions t]"
  from sep_siblings_of_parent_colleagues [OF st geo b b0] obtain colls where
    colls: "colleagues_generate t ?p = Some colls"
    and sibs: "sep_siblings_of t b
        = Some (concat (map (\<lambda>P. filter (\<lambda>c. \<not> adjacent t b c) (?ch P)) colls))"
    and sib: "\<forall>m<2 ^ dimensions t. child_id t m ?p \<noteq> 0 \<longrightarrow> adjacent t b (child_id t m ?p)"
    by auto
  have d: "0 < dimensions t"
    using geo by (simp add: tree_geometry_def tree_centers_def)
  note lev = tree_geometry_levels [OF st geo]
  have p: "?p < nboxes t"
    by (rule tree_structure_parent(1) [OF st b b0])
  have iff: "c \<noteq> 0 \<and> \<not> spec_adjacent t b c \<longleftrightarrow> \<not> adjacent t b c"
    if P: "P < nboxes t" and c: "c \<in> set (?ch P)" for P c
  proof (cases "c = 0")
    case True
    with adjacent_root [OF st geo b] show ?thesis by simp
  next
    case False
    from c obtain m where "m < 2 ^ dimensions t" "c = child_id t m P"
      by auto
    with tree_structure_child(1) [OF st P, of m] have "c < nboxes t"
      by simp
    with False adjacent_iff_spec_adjacent [OF d lev [OF b] lev, of c] show ?thesis
      by simp
  qed
  have one: "filter (\<lambda>c. \<not> spec_adjacent t b c) (filter (\<lambda>c. c \<noteq> 0) (?ch P))
      = filter (\<lambda>c. \<not> adjacent t b c) (?ch P)" if "P \<in> set colls" for P
    unfolding filter_filter
    using iff [OF colleagues_generate_bound [OF st colls that]]
    by (intro filter_cong) auto
  have par: "filter (\<lambda>c. \<not> spec_adjacent t b c) (filter (\<lambda>c. c \<noteq> 0) (?ch ?p)) = []"
  proof -
    have "adjacent t b c" if "c \<in> set (?ch ?p)" "c \<noteq> 0" for c
      using that sib by auto
    with iff [OF p] show ?thesis
      unfolding filter_filter by (auto simp: filter_empty_conv)
  qed
  have "spec_sep_siblings t colls b
      = concat (map (\<lambda>P. filter (\<lambda>c. \<not> spec_adjacent t b c)
                            (filter (\<lambda>c. c \<noteq> 0) (?ch P))) colls)
        @ filter (\<lambda>c. \<not> spec_adjacent t b c) (filter (\<lambda>c. c \<noteq> 0) (?ch ?p))"
    by (simp add: spec_sep_siblings_def filter_concat comp_def)
  also have "\<dots> = concat (map (\<lambda>P. filter (\<lambda>c. \<not> adjacent t b c) (?ch P)) colls)"
    using one par by (simp cong: map_cong)
  finally show ?thesis
    using colls sibs by simp
qed

text \<open>
  Box 30 of \<open>deep_tree\<close> has one colleague, its sibling 31, and list 2 of box 32, a
  child of box 30, is box 0 for each of the four empty child slots of box 31.
\<close>

lemma deep_tree_colleagues_30: "colleagues_generate deep_tree 30 = Some [31]"
  by code_simp

lemma deep_tree_structure: "tree_structure deep_tree"
  by code_simp

lemma deep_tree_nboxes: "nboxes deep_tree = 34"
  by (simp add: deep_tree_def)

lemma deep_tree_box_levels:
  "x < 34 \<Longrightarrow> box_levels deep_tree ! x = (if x \<le> 30 then x else if x = 31 then 30 else 31)"
  by (simp add: deep_tree_def)

lemma deep_tree_box_parent_ids:
  "x < 34 \<Longrightarrow> box_parent_ids deep_tree ! x
     = (if x \<le> 30 then x - 1 else if x = 31 then 29 else 30)"
  by (simp add: deep_tree_def)

lemma deep_tree_ancestor_33: "k \<le> 30 \<Longrightarrow> ancestor deep_tree 33 (Suc k) = 30 - k"
proof (induction k)
  case 0
  then show ?case by (simp add: deep_tree_box_parent_ids)
next
  case (Suc k)
  then show ?case by (simp add: deep_tree_box_parent_ids)
qed

lemma deep_tree_chain_colleagues:
  assumes "1 \<le> j" "j \<le> 29"
  shows "colleagues_generate deep_tree j = Some []"
proof -
  let ?xs = "colleagues_below deep_tree (load_center deep_tree j) (box_levels deep_tree ! j) j
               (nlevels deep_tree) 0 0 [0..<2 ^ dimensions deep_tree]"
  have "x \<notin> set ?xs" for x
  proof
    assume "x \<in> set ?xs"
    from colleagues_below_sound [OF this deep_tree_structure
        tree_structure_root(1) [OF deep_tree_structure]
        tree_structure_root(2) [OF deep_tree_structure]]
    have "x \<noteq> j" "x < 34" "box_levels deep_tree ! x = box_levels deep_tree ! j"
      by (simp_all add: deep_tree_nboxes)
    with assms show False
      by (simp add: deep_tree_box_levels split: if_splits)
  qed
  then have "?xs = []"
    by (cases ?xs) auto
  with colleagues_generate_below [OF deep_tree_structure, of j] assms show ?thesis
    by simp
qed

lemma deep_tree_sep_siblings_32: "sep_siblings_of deep_tree 32 = Some [0, 0, 0, 0]"
proof -
  from colleagues_of_boxes_Some [OF deep_tree_structure] obtain outs where
    outs: "colleagues_of_boxes deep_tree = Some outs" "length outs = nboxes deep_tree"
      "\<forall>p<nboxes deep_tree. colleagues_generate deep_tree p = Some (outs ! p)"
    by blast
  have par: "box_parent_ids deep_tree ! 32 = 30"
    by code_simp
  have n: "nboxes deep_tree = 34"
    by code_simp
  have "outs ! 30 = [31]"
    using outs(3) deep_tree_colleagues_30 n by simp
  moreover have "sep_siblings_of_colleague deep_tree (load_center deep_tree 32)
      (box_levels deep_tree ! 32) 31 = [0, 0, 0, 0]"
    by code_simp
  ultimately have "sep_siblings_generate deep_tree (csr_starts outs) (concat outs) 32
      = [0, 0, 0, 0]"
    using outs(2) n par by (simp add: sep_siblings_generate_csr)
  then show ?thesis
    by (simp add: sep_siblings_of_def outs(1))
qed

lemma deep_tree_sep_siblings_33: "sep_siblings_of deep_tree 33 = Some [0, 0, 0, 0]"
proof -
  from colleagues_of_boxes_Some [OF deep_tree_structure] obtain outs where
    outs: "colleagues_of_boxes deep_tree = Some outs" "length outs = nboxes deep_tree"
      "\<forall>p<nboxes deep_tree. colleagues_generate deep_tree p = Some (outs ! p)"
    by blast
  have par: "box_parent_ids deep_tree ! 33 = 30"
    by (simp add: deep_tree_box_parent_ids)
  have n: "nboxes deep_tree = 34"
    by (rule deep_tree_nboxes)
  have "outs ! 30 = [31]"
    using outs(3) deep_tree_colleagues_30 n by simp
  moreover have "sep_siblings_of_colleague deep_tree (load_center deep_tree 33)
      (box_levels deep_tree ! 33) 31 = [0, 0, 0, 0]"
    by code_simp
  ultimately have "sep_siblings_generate deep_tree (csr_starts outs) (concat outs) 33
      = [0, 0, 0, 0]"
    using outs(2) n par by (simp add: sep_siblings_generate_csr)
  then show ?thesis
    by (simp add: sep_siblings_of_def outs(1))
qed

text \<open>
  C1. The claim: list 2 of a box consists of the children of the colleagues of its parent
  and of the parent itself that are not adjacent to the box. In \<open>deep_tree\<close> box 33 lies
  on level 31, where \<^verbatim>\<open>LEVEL_TO_SIZE\<close> is negative and the adjacency test of the
  kernel fails for every box. The parent of box 33 is box 30, whose one colleague 31 has no
  children, and the other child of box 30, box 32, is adjacent to box 33 by the formula of
  the specification: the list of the specification is empty. The kernel emits box 0 for
  each of the four empty child slots of box 31, and its test calls the sibling 32 not
  adjacent.
\<close>

theorem sep_siblings_differ_at_level_31:
  "colleagues_generate deep_tree (box_parent_ids deep_tree ! 33) = Some [31]
   \<and> spec_sep_siblings deep_tree [31] 33 = []
   \<and> sep_siblings_of deep_tree 33 = Some [0, 0, 0, 0]
   \<and> box_parent_ids deep_tree ! 32 = box_parent_ids deep_tree ! 33
   \<and> spec_adjacent deep_tree 33 32
   \<and> \<not> adjacent deep_tree 33 32"
proof -
  have "box_parent_ids deep_tree ! 33 = 30" and "box_parent_ids deep_tree ! 32 = 30"
    by (simp_all add: deep_tree_box_parent_ids)
  moreover have "spec_sep_siblings deep_tree [31] 33 = []"
    by code_simp
  moreover have "spec_adjacent deep_tree 33 32"
    by code_simp
  moreover have "\<not> adjacent deep_tree 33 32"
    by code_simp
  ultimately show ?thesis
    using deep_tree_colleagues_30 deep_tree_sep_siblings_33 by simp
qed

text \<open>
  C10. The claim: the list 2 kernel reads the child slots of the parent's colleagues
  without a test for 0, but it never emits box 0, since for every box B whose centre lies
  inside the root box the adjacency test of B against box 0 succeeds. In \<open>deep_tree\<close>
  box 32 lies on level 31, its centre is inside the root box, and the test against box 0
  fails. The parent of box 32 is box 30, whose colleague 31 has four empty child slots: the
  kernel emits box 0 four times for box 32.
\<close>

theorem sep_siblings_emits_root_at_level_31:
  "linf_dist deep_tree 32 0 \<le> root_extent deep_tree / 2
   \<and> \<not> is_adjacent_or_overlapping deep_tree (load_center deep_tree 32)
         (box_levels deep_tree ! 32) 0
   \<and> box_parent_ids deep_tree ! 32 = 30
   \<and> colleagues_generate deep_tree 30 = Some [31]
   \<and> sep_siblings_of deep_tree 32 = Some [0, 0, 0, 0]"
proof -
  have "linf_dist deep_tree 32 0 \<le> root_extent deep_tree / 2"
    by code_simp
  moreover have "\<not> is_adjacent_or_overlapping deep_tree (load_center deep_tree 32)
         (box_levels deep_tree ! 32) 0"
    by code_simp
  moreover have "box_parent_ids deep_tree ! 32 = 30"
    by code_simp
  ultimately show ?thesis
    using deep_tree_colleagues_30 deep_tree_sep_siblings_32 by (intro conjI)
qed

section \<open>Separated bigger non-siblings\<close>

lemma ancestor_parent: "ancestor t (box_parent_ids t ! b) k = ancestor t b (Suc k)"
  by (induction k) simp_all

lemma found_closer_parent_eq:
  "wl < cwl \<Longrightarrow>
     found_closer_parent t cc wl p cwl
       = Some (\<exists>j\<in>{1..<cwl - wl}. \<not> is_adjacent_or_overlapping t cc wl (ancestor t p j))"
proof (induction t cc wl p cwl rule: found_closer_parent.induct)
  case (1 t cc wl p cwl)
  show ?case
  proof (cases "cwl - 1 = wl")
    case True
    then show ?thesis
      using "1.prems" by (subst found_closer_parent.simps) simp
  next
    case False
    let ?p' = "box_parent_ids t ! p"
    show ?thesis
    proof (cases "is_adjacent_or_overlapping t cc wl ?p'")
      case adj: True
      have "found_closer_parent t cc wl p cwl = found_closer_parent t cc wl ?p' (cwl - 1)"
        using "1.prems" False adj by (subst found_closer_parent.simps) (simp add: Let_def)
      also have "\<dots> = Some (\<exists>j\<in>{1..<cwl - 1 - wl}.
          \<not> is_adjacent_or_overlapping t cc wl (ancestor t ?p' j))"
        using "1.prems" False adj by (intro "1.IH") (simp_all add: Let_def)
      also have "(\<exists>j\<in>{1..<cwl - 1 - wl}. \<not> is_adjacent_or_overlapping t cc wl (ancestor t ?p' j))
          \<longleftrightarrow> (\<exists>j\<in>{1..<cwl - wl}. \<not> is_adjacent_or_overlapping t cc wl (ancestor t p j))"
      proof
        assume "\<exists>j\<in>{1..<cwl - 1 - wl}. \<not> is_adjacent_or_overlapping t cc wl (ancestor t ?p' j)"
        then obtain j where "1 \<le> j" "j < cwl - 1 - wl"
          "\<not> is_adjacent_or_overlapping t cc wl (ancestor t p (Suc j))"
          by (auto simp: ancestor_parent)
        then show "\<exists>j\<in>{1..<cwl - wl}. \<not> is_adjacent_or_overlapping t cc wl (ancestor t p j)"
          by (intro bexI [of _ "Suc j"]) auto
      next
        assume "\<exists>j\<in>{1..<cwl - wl}. \<not> is_adjacent_or_overlapping t cc wl (ancestor t p j)"
        then obtain j where j: "1 \<le> j" "j < cwl - wl"
          "\<not> is_adjacent_or_overlapping t cc wl (ancestor t p j)"
          by auto
        with adj have "j \<noteq> 1"
          by auto
        with j obtain j' where "j = Suc j'" "1 \<le> j'" "j' < cwl - 1 - wl"
          by (cases j) auto
        with j(3) show "\<exists>j\<in>{1..<cwl - 1 - wl}.
            \<not> is_adjacent_or_overlapping t cc wl (ancestor t ?p' j)"
          by (intro bexI [of _ j']) (auto simp: ancestor_parent)
      qed
      finally show ?thesis .
    next
      case nadj: False
      have "found_closer_parent t cc wl p cwl = Some True"
        using "1.prems" False nadj by (subst found_closer_parent.simps) (simp add: Let_def)
      moreover have "\<exists>j\<in>{1..<cwl - wl}. \<not> is_adjacent_or_overlapping t cc wl (ancestor t p j)"
        using "1.prems" False nadj by (intro bexI [of _ 1]) auto
      ultimately show ?thesis by simp
    qed
  qed
qed

lemma sep_bigger_nonsiblings_of_colleague_eq:
  assumes "wl < L"
  shows "sep_bigger_nonsiblings_of_colleague t a c L wl K
     = Some (if \<not> is_adjacent_or_overlapping t c L K \<and> has_flag t K BOX_HAS_OWN_SOURCES
               \<and> (\<forall>j\<in>{1..<L - wl}. is_adjacent_or_overlapping t (load_center t K) wl
                                       (ancestor t a j))
             then [K] else [])"
  unfolding sep_bigger_nonsiblings_of_colleague_def Let_def
  by (simp add: found_closer_parent_eq [OF assms])

lemma sep_bigger_nonsiblings_loop_eq:
  assumes st: "tree_structure t" and a: "a < nboxes t" and len: "length outs = nboxes t"
  shows "wl \<le> L \<Longrightarrow>
     sep_bigger_nonsiblings_loop t (csr_starts outs) (concat outs) a c L
         (ancestor t a (L - wl)) wl out
       = Some (out @ concat (map (sep_bigger_of_ancestor t outs a c L) [Suc (L - wl)..<L]))"
proof (induction wl arbitrary: out)
  case 0
  then show ?case
    by (subst sep_bigger_nonsiblings_loop.simps) simp
next
  case (Suc w)
  show ?case
  proof (cases "w = 0")
    case True
    then show ?thesis
      using Suc.prems by (subst sep_bigger_nonsiblings_loop.simps) simp
  next
    case False
    let ?k = "L - w"
    let ?p = "ancestor t a ?k"
    have k: "Suc (L - Suc w) = ?k"
      using Suc.prems by simp
    have par: "box_parent_ids t ! ancestor t a (L - Suc w) = ?p"
      using k by (metis ancestor.simps(2))
    have p: "?p < length outs"
      using ancestor_less [OF st a] len by simp
    have wk: "w = L - ?k"
      using Suc.prems by simp
    have slice: "map (\<lambda>i. concat outs ! i) [csr_starts outs ! ?p..<csr_starts outs ! Suc ?p]
        = outs ! ?p"
      using csr_slice [OF p] by simp
    have "map (\<lambda>i. sep_bigger_nonsiblings_of_colleague t a c L w (concat outs ! i))
            [csr_starts outs ! ?p..<csr_starts outs ! Suc ?p]
        = map (sep_bigger_nonsiblings_of_colleague t a c L w)
            (map (\<lambda>i. concat outs ! i) [csr_starts outs ! ?p..<csr_starts outs ! Suc ?p])"
      by (simp add: comp_def)
    then have "those (map (\<lambda>i. sep_bigger_nonsiblings_of_colleague t a c L w (concat outs ! i))
            [csr_starts outs ! ?p..<csr_starts outs ! Suc ?p])
        = those (map (sep_bigger_nonsiblings_of_colleague t a c L w) (outs ! ?p))"
      by (simp only: slice)
    also have "\<dots> = Some (map (\<lambda>K. if \<not> is_adjacent_or_overlapping t c L K
               \<and> has_flag t K BOX_HAS_OWN_SOURCES
               \<and> (\<forall>j\<in>{1..<L - w}. is_adjacent_or_overlapping t (load_center t K) w
                                       (ancestor t a j))
             then [K] else []) (outs ! ?p))"
      using Suc.prems by (intro those_map_Some sep_bigger_nonsiblings_of_colleague_eq) simp
    finally have round: "those (map (\<lambda>i. sep_bigger_nonsiblings_of_colleague t a c L w
              (concat outs ! i)) [csr_starts outs ! ?p..<csr_starts outs ! Suc ?p])
        = Some (map (\<lambda>K. if \<not> is_adjacent_or_overlapping t c L K
               \<and> has_flag t K BOX_HAS_OWN_SOURCES
               \<and> (\<forall>j\<in>{1..<L - w}. is_adjacent_or_overlapping t (load_center t K) w
                                       (ancestor t a j))
             then [K] else []) (outs ! ?p))" .
    have emitted: "concat (map (\<lambda>K. if \<not> is_adjacent_or_overlapping t c L K
               \<and> has_flag t K BOX_HAS_OWN_SOURCES
               \<and> (\<forall>j\<in>{1..<L - w}. is_adjacent_or_overlapping t (load_center t K) w
                                       (ancestor t a j))
             then [K] else []) (outs ! ?p))
        = sep_bigger_of_ancestor t outs a c L ?k"
      unfolding sep_bigger_of_ancestor_def using wk
      by (simp add: concat_map_if [where f = "\<lambda>K. K", simplified])
    have "sep_bigger_nonsiblings_loop t (csr_starts outs) (concat outs) a c L
         (ancestor t a (L - Suc w)) (Suc w) out
       = sep_bigger_nonsiblings_loop t (csr_starts outs) (concat outs) a c L ?p w
           (out @ sep_bigger_of_ancestor t outs a c L ?k)"
      using False by (subst sep_bigger_nonsiblings_loop.simps)
        (simp add: Let_def par round emitted [unfolded One_nat_def])
    also have "\<dots> = Some ((out @ sep_bigger_of_ancestor t outs a c L ?k)
        @ concat (map (sep_bigger_of_ancestor t outs a c L) [Suc ?k..<L]))"
      using Suc.prems by (intro Suc.IH) simp
    also have "[Suc (L - Suc w)..<L] = ?k # [Suc ?k..<L]"
      using Suc.prems False k by (simp add: upt_conv_Cons)
    then have "(out @ sep_bigger_of_ancestor t outs a c L ?k)
        @ concat (map (sep_bigger_of_ancestor t outs a c L) [Suc ?k..<L])
      = out @ concat (map (sep_bigger_of_ancestor t outs a c L) [Suc (L - Suc w)..<L])"
      by simp
    finally show ?thesis .
  qed
qed


lemma sep_bigger_nonsiblings_of_eq:
  assumes st: "tree_structure t" and a: "a < nboxes t"
    and outs: "colleagues_of_boxes t = Some outs" "length outs = nboxes t"
  shows "sep_bigger_nonsiblings_of t a
     = Some (concat (map (sep_bigger_of_ancestor t outs a (load_center t a) (box_levels t ! a))
                       [Suc 0..<box_levels t ! a]))"
proof -
  let ?L = "box_levels t ! a"
  have "sep_bigger_nonsiblings_loop t (csr_starts outs) (concat outs) a (load_center t a) ?L
         (ancestor t a (?L - ?L)) ?L []
       = Some ([] @ concat (map (sep_bigger_of_ancestor t outs a (load_center t a) ?L)
                              [Suc (?L - ?L)..<?L]))"
    by (rule sep_bigger_nonsiblings_loop_eq [OF st a outs(2)]) simp
  then show ?thesis
    by (simp add: sep_bigger_nonsiblings_of_def outs(1) sep_bigger_nonsiblings_generate_def
        Let_def)
qed

text \<open>
  Within 31 levels: in a well-formed tree the list 4 kernel returns for every box \<open>a\<close>,
  and every box \<open>B\<close> it emits is on a level above that of \<open>a\<close>, is not adjacent to
  \<open>a\<close>, has sources of its own, is adjacent to every proper ancestor of \<open>a\<close>, and is
  a colleague of a proper ancestor of \<open>a\<close> other than the root.
\<close>

lemma sep_bigger_nonsiblings_sound:
  assumes st: "tree_structure t" and geo: "tree_geometry t" and a: "a < nboxes t"
  shows "\<exists>xs. sep_bigger_nonsiblings_of t a = Some xs
     \<and> (\<forall>B\<in>set xs.
           box_levels t ! B < box_levels t ! a
         \<and> \<not> adjacent t a B
         \<and> has_flag t B BOX_HAS_OWN_SOURCES
         \<and> (\<forall>k\<in>{1..box_levels t ! a}. adjacent t (ancestor t a k) B)
         \<and> (\<exists>k\<in>{1..<box_levels t ! a}. \<exists>colls.
               colleagues_generate t (ancestor t a k) = Some colls \<and> B \<in> set colls))"
proof -
  let ?L = "box_levels t ! a"
  from colleagues_of_boxes_Some [OF st] obtain outs where
    outs: "colleagues_of_boxes t = Some outs" "length outs = nboxes t"
      "\<forall>p<nboxes t. colleagues_generate t p = Some (outs ! p)"
    by blast
  let ?xs = "concat (map (sep_bigger_of_ancestor t outs a (load_center t a) ?L) [Suc 0..<?L])"
  have res: "sep_bigger_nonsiblings_of t a = Some ?xs"
    by (rule sep_bigger_nonsiblings_of_eq [OF st a outs(1,2)])
  have "box_levels t ! B < ?L \<and> \<not> adjacent t a B \<and> has_flag t B BOX_HAS_OWN_SOURCES
       \<and> (\<forall>k\<in>{1..?L}. adjacent t (ancestor t a k) B)
       \<and> (\<exists>k\<in>{1..<?L}. \<exists>colls.
             colleagues_generate t (ancestor t a k) = Some colls \<and> B \<in> set colls)"
    if "B \<in> set ?xs" for B
  proof -
    from that obtain k where k: "1 \<le> k" "k < ?L"
      and B: "B \<in> set (sep_bigger_of_ancestor t outs a (load_center t a) ?L k)"
      by auto
    let ?P = "ancestor t a k"
    have P: "?P < nboxes t"
      by (rule ancestor_less [OF st a])
    have levP: "box_levels t ! ?P = ?L - k"
      using k by (intro ancestor_level [OF st a]) simp
    have P0: "?P \<noteq> 0"
    proof
      assume "?P = 0"
      with levP tree_structure_root(2) [OF st] k show False by simp
    qed
    have coll: "colleagues_generate t ?P = Some (outs ! ?P)"
      using outs(3) P by simp
    from colleagues_generate_set [OF st geo P P0] coll
    have set_coll: "set (outs ! ?P) = {b. b < nboxes t \<and> b \<noteq> ?P
        \<and> box_levels t ! b = box_levels t ! ?P \<and> adjacent t ?P b}"
      by simp
    from B have Bc: "B \<in> set (outs ! ?P)"
      and sep: "\<not> is_adjacent_or_overlapping t (load_center t a) ?L B"
      and own: "has_flag t B BOX_HAS_OWN_SOURCES"
      and chk: "\<forall>j\<in>{1..<k}. is_adjacent_or_overlapping t (load_center t B) (?L - k)
                  (ancestor t a j)"
      by (simp_all add: sep_bigger_of_ancestor_def)
    from Bc set_coll have Bn: "B < nboxes t" and levB: "box_levels t ! B = ?L - k"
      and adjP: "adjacent t ?P B"
      using levP by simp_all
    have anc: "adjacent t (ancestor t a k') B" if k': "k' \<in> {1..?L}" for k'
    proof (cases "k' < k")
      case True
      with chk k' levB have "adjacent t B (ancestor t a k')"
        by (simp add: adjacent_def)
      then show ?thesis
        by (simp add: adjacent_sym)
    next
      case False
      have "adjacent t B ?P"
        using adjP by (simp add: adjacent_sym)
      moreover have "k' - k \<le> box_levels t ! ?P"
        using k' levP False by auto
      ultimately have "adjacent t B (ancestor t ?P (k' - k))"
        by (intro adjacent_ancestor [OF st geo Bn P])
      then show ?thesis
        using False by (simp add: ancestor_add adjacent_sym)
    qed
    have "box_levels t ! B < ?L"
      using levB k by simp
    moreover have "\<not> adjacent t a B"
      using sep by (simp add: adjacent_def)
    moreover have "\<exists>k\<in>{1..<?L}. \<exists>colls.
        colleagues_generate t (ancestor t a k) = Some colls \<and> B \<in> set colls"
      using k coll Bc by (intro bexI [of _ k]) auto
    ultimately show ?thesis
      using own anc by blast
  qed
  with res show ?thesis
    by blast
qed

lemma refined_tree_sep_bigger_nonsiblings_5:
  "sep_bigger_nonsiblings_of refined_tree 5 = Some [3, 4]"
  by code_simp

lemma sep_bigger_nonsiblings_sound_refined_tree:
  "tree_structure refined_tree \<and> tree_geometry refined_tree \<and> 5 < nboxes refined_tree
   \<and> sep_bigger_nonsiblings_of refined_tree 5 = Some [3, 4]
   \<and> box_levels refined_tree ! 3 < box_levels refined_tree ! 5
   \<and> \<not> adjacent refined_tree 5 3
   \<and> has_flag refined_tree 3 BOX_HAS_OWN_SOURCES
   \<and> box_levels refined_tree ! 5 = 2
   \<and> adjacent refined_tree (ancestor refined_tree 5 1) 3
   \<and> adjacent refined_tree (ancestor refined_tree 5 2) 3"
proof -
  have n: "5 < nboxes refined_tree"
    by (simp add: refined_tree_def)
  have lev: "box_levels refined_tree ! 5 = 2"
    by (simp add: refined_tree_def)
  from sep_bigger_nonsiblings_sound [OF conjunct1 [OF refined_tree_wf]
      conjunct2 [OF refined_tree_wf] n] refined_tree_sep_bigger_nonsiblings_5
  have all: "\<forall>B\<in>set [3, 4].
         box_levels refined_tree ! B < box_levels refined_tree ! 5
       \<and> \<not> adjacent refined_tree 5 B
       \<and> has_flag refined_tree B BOX_HAS_OWN_SOURCES
       \<and> (\<forall>k\<in>{1..box_levels refined_tree ! 5}. adjacent refined_tree (ancestor refined_tree 5 k) B)"
    by auto
  then have "box_levels refined_tree ! 3 < box_levels refined_tree ! 5"
    and "\<not> adjacent refined_tree 5 3"
    and "has_flag refined_tree 3 BOX_HAS_OWN_SOURCES"
    and anc: "\<forall>k\<in>{1..box_levels refined_tree ! 5}. adjacent refined_tree (ancestor refined_tree 5 k) 3"
    by simp_all
  moreover have "(1::nat) \<in> {1..box_levels refined_tree ! 5}"
    and "(2::nat) \<in> {1..box_levels refined_tree ! 5}"
    using lev by simp_all
  then have "adjacent refined_tree (ancestor refined_tree 5 1) 3"
    and "adjacent refined_tree (ancestor refined_tree 5 2) 3"
    using anc by blast+
  ultimately show ?thesis
    using refined_tree_wf n refined_tree_sep_bigger_nonsiblings_5 lev by blast
qed

lemma deep_tree_sep_bigger_nonsiblings_33:
  "sep_bigger_nonsiblings_of deep_tree 33 = Some [31]"
proof -
  from colleagues_of_boxes_Some [OF deep_tree_structure] obtain outs where
    outs: "colleagues_of_boxes deep_tree = Some outs" "length outs = nboxes deep_tree"
      "\<forall>p<nboxes deep_tree. colleagues_generate deep_tree p = Some (outs ! p)"
    by blast
  let ?c = "load_center deep_tree 33"
  let ?f = "sep_bigger_of_ancestor deep_tree outs 33 ?c 31"
  have L: "box_levels deep_tree ! 33 = 31"
    by (simp add: deep_tree_box_levels)
  have o30: "outs ! 30 = [31]"
    using outs(3) deep_tree_colleagues_30 by (simp add: deep_tree_nboxes)
  have chain: "outs ! j = []" if "1 \<le> j" "j \<le> 29" for j
    using outs(3) deep_tree_chain_colleagues [OF that] that by (simp add: deep_tree_nboxes)
  have sep: "\<not> is_adjacent_or_overlapping deep_tree (load_center deep_tree 33) 31 31"
    by code_simp
  have own: "has_flag deep_tree 31 BOX_HAS_OWN_SOURCES"
    by code_simp
  have f1: "?f (Suc 0) = [31]"
    using sep own o30 by (simp add: sep_bigger_of_ancestor_def deep_tree_box_parent_ids)
  have fk: "?f k = []" if "k \<in> set [2..<31]" for k
  proof -
    from that obtain k' where k': "k = Suc k'" "1 \<le> k'" "k' \<le> 29"
      by (cases k) auto
    then have "ancestor deep_tree 33 k = 30 - k'"
      unfolding k'(1) by (intro deep_tree_ancestor_33) simp
    moreover have "outs ! (30 - k') = []"
      using k' by (intro chain) simp_all
    ultimately show ?thesis
      by (simp add: sep_bigger_of_ancestor_def)
  qed
  have "[Suc 0..<31] = Suc 0 # [2..<31]"
    by (simp add: upt_conv_Cons)
  then have "concat (map ?f [Suc 0..<31]) = ?f (Suc 0) @ concat (map ?f [2..<31])"
    by simp
  also have "concat (map ?f [2..<31]) = []"
    using fk by simp
  finally have "concat (map ?f [Suc 0..<31]) = [31]"
    using f1 by simp
  with sep_bigger_nonsiblings_of_eq [OF deep_tree_structure _ outs(1,2), of 33] L
  show ?thesis
    by (simp add: deep_tree_nboxes)
qed

text \<open>
  C4. The claim: every box B emitted into list 4 of a box A is on a level above that of A,
  is not adjacent to A, has sources of its own, and is adjacent to the ancestors of A in
  between. In \<open>deep_tree\<close> box 33 lies on level 31, where the adjacency test of the
  kernel fails for every box. Box 31, the colleague of the parent of box 33, touches box 33
  and is adjacent to it by the formula of the specification; the kernel emits it into
  list 4 of box 33.
\<close>

theorem sep_bigger_nonsiblings_emits_adjacent_at_level_31:
  "sep_bigger_nonsiblings_of deep_tree 33 = Some [31]
   \<and> box_levels deep_tree ! 31 < box_levels deep_tree ! 33
   \<and> spec_adjacent deep_tree 33 31
   \<and> \<not> adjacent deep_tree 33 31"
proof -
  have "box_levels deep_tree ! 31 < box_levels deep_tree ! 33"
    by (simp add: deep_tree_box_levels)
  moreover have "spec_adjacent deep_tree 33 31"
    by code_simp
  moreover have "\<not> adjacent deep_tree 33 31"
    by code_simp
  ultimately show ?thesis
    using deep_tree_sep_bigger_nonsiblings_33 by (intro conjI)
qed

section \<open>Level starts\<close>

lemma sorted_key_split:
  "sorted (map key xs) \<Longrightarrow>
     xs = filter (\<lambda>x. key x < l) xs @ filter (\<lambda>x. \<not> key x < l) xs"
proof (induction xs)
  case Nil
  then show ?case by simp
next
  case (Cons x xs)
  show ?case
  proof (cases "key x < l")
    case True
    with Cons show ?thesis by simp
  next
    case False
    with Cons.prems have "\<forall>y\<in>set xs. \<not> key y < l"
      by auto
    then have "filter (\<lambda>x. key x < l) xs = []" "filter (\<lambda>x. \<not> key x < l) xs = xs"
      by (simp_all add: filter_empty_conv filter_id_conv)
    with False show ?thesis by simp
  qed
qed

lemma take_count_below:
  assumes "sorted (map key xs)"
  shows "take (count_below key xs l) xs = filter (\<lambda>x. key x < l) xs"
    and "drop (count_below key xs l) xs = filter (\<lambda>x. \<not> key x < l) xs"
proof -
  from sorted_key_split [OF assms, of l]
  have "take (count_below key xs l) xs
      = take (count_below key xs l) (filter (\<lambda>x. key x < l) xs @ filter (\<lambda>x. \<not> key x < l) xs)"
    and "drop (count_below key xs l) xs
      = drop (count_below key xs l) (filter (\<lambda>x. key x < l) xs @ filter (\<lambda>x. \<not> key x < l) xs)"
    by simp_all
  then show "take (count_below key xs l) xs = filter (\<lambda>x. key x < l) xs"
    and "drop (count_below key xs l) xs = filter (\<lambda>x. \<not> key x < l) xs"
    by (simp_all add: count_below_def)
qed

lemma count_below_le: "count_below key xs l \<le> length xs"
  by (simp add: count_below_def)

lemma count_below_mono: "l \<le> l' \<Longrightarrow> count_below key xs l \<le> count_below key xs l'"
  unfolding count_below_def by (induction xs) auto

lemma count_below_0 [simp]: "count_below key xs 0 = 0"
  by (simp add: count_below_def)

lemma count_below_all:
  "\<forall>x\<in>set xs. key x < n \<Longrightarrow> count_below key xs n = length xs"
  by (simp add: count_below_def)

lemma key_below:
  assumes "sorted (map key xs)" "i < count_below key xs l"
  shows "key (xs ! i) < l"
proof -
  have "xs ! i = take (count_below key xs l) xs ! i"
    using assms(2) by simp
  also have "\<dots> \<in> set (take (count_below key xs l) xs)"
    using assms(2) count_below_le [of key xs l] by (intro nth_mem) simp
  finally show ?thesis
    by (simp add: take_count_below(1) [OF assms(1)])
qed

lemma key_not_below:
  assumes "sorted (map key xs)" "count_below key xs l \<le> i" "i < length xs"
  shows "l \<le> key (xs ! i)"
proof -
  have "xs ! i = drop (count_below key xs l) xs ! (i - count_below key xs l)"
    using assms(2,3) by simp
  also have "\<dots> \<in> set (drop (count_below key xs l) xs)"
    using assms(2,3) by (intro nth_mem) simp
  finally show ?thesis
    by (simp add: take_count_below(2) [OF assms(1)])
qed

lemma in_set_dropE:
  assumes "x \<in> set (drop j xs)"
  shows "\<exists>i. j \<le> i \<and> i < length xs \<and> x = xs ! i"
proof -
  from assms obtain k where k: "k < length (drop j xs)" "drop j xs ! k = x"
    by (auto simp: in_set_conv_nth)
  then have "j + k < length xs" and "x = xs ! (j + k)"
    by simp_all
  then show ?thesis
    by (intro exI [of _ "j + k"]) simp
qed

lemma in_set_sliceE:
  assumes "x \<in> set (slice xs a b)"
  shows "\<exists>i. a \<le> i \<and> i < b \<and> i < length xs \<and> x = xs ! i"
proof -
  from in_set_dropE [OF assms [unfolded slice_def]] obtain i where
    "a \<le> i" "i < length (take b xs)" "x = take b xs ! i"
    by blast
  then show ?thesis
    by (intro exI [of _ i]) simp
qed

lemma count_below_eqI:
  assumes "j \<le> length xs" "\<And>i. i < j \<Longrightarrow> key (xs ! i) < l"
    "\<And>i. j \<le> i \<Longrightarrow> i < length xs \<Longrightarrow> l \<le> key (xs ! i)"
  shows "count_below key xs l = j"
proof -
  have "\<forall>x\<in>set (take j xs). key x < l"
    using assms(1,2) by (auto simp: in_set_conv_nth)
  then have a: "filter (\<lambda>x. key x < l) (take j xs) = take j xs"
    by (simp add: filter_id_conv)
  have "\<forall>x\<in>set (drop j xs). \<not> key x < l"
  proof
    fix x assume "x \<in> set (drop j xs)"
    from in_set_dropE [OF this] obtain i where "j \<le> i" "i < length xs" "x = xs ! i"
      by blast
    with assms(3) [of i] show "\<not> key x < l"
      by simp
  qed
  then have b: "filter (\<lambda>x. key x < l) (drop j xs) = []"
    by (simp add: filter_empty_conv)
  have "count_below key xs l = length (filter (\<lambda>x. key x < l) (take j xs @ drop j xs))"
    by (simp add: count_below_def)
  also have "\<dots> = j"
    using assms(1) by (simp only: filter_append a b) simp
  finally show ?thesis .
qed

lemma slice_keys:
  assumes "sorted (map key xs)" "x \<in> set (slice xs (count_below key xs l) (count_below key xs (Suc l)))"
  shows "key x = l"
proof -
  from in_set_sliceE [OF assms(2)] obtain i where
    i: "count_below key xs l \<le> i" "i < count_below key xs (Suc l)" "x = xs ! i"
    and "i < length xs"
    by blast
  with key_below [OF assms(1) i(2)] key_not_below [OF assms(1) i(1)] i(3) show ?thesis
    by simp
qed

lemma concat_slices:
  assumes "\<And>l. l < n \<Longrightarrow> f l \<le> f (Suc l)" "f 0 = 0"
  shows "concat (map (\<lambda>l. slice xs (f l) (f (Suc l))) [0..<n]) = take (f n) xs"
  using assms(1)
proof (induction n)
  case 0
  then show ?case by (simp add: assms(2))
next
  case (Suc n)
  have "f n \<le> f (Suc n)"
    by (rule Suc.prems) simp
  then have "take (f n) xs = take (f n) (take (f (Suc n)) xs)"
    by (simp add: min_absorb1)
  then have "take (f n) xs @ drop (f n) (take (f (Suc n)) xs) = take (f (Suc n)) xs"
    by (simp only: append_take_drop_id)
  moreover have "concat (map (\<lambda>l. slice xs (f l) (f (Suc l))) [0..<n]) = take (f n) xs"
    using Suc.prems by (intro Suc.IH) simp
  ultimately show ?case
    by (simp add: slice_def)
qed

lemma level_sorted_box:
  assumes "level_sorted t" "b < nboxes t"
  shows "box_levels t ! b < nlevels t"
    and "level_start_box_nrs t ! (box_levels t ! b) \<le> b"
    and "b < level_start_box_nrs t ! (box_levels t ! b + 1)"
  using assms by (auto simp: level_sorted_def)

lemma level_start_mono:
  assumes "level_sorted t" "l \<le> l'" "l' \<le> nlevels t"
  shows "level_start_box_nrs t ! l \<le> level_start_box_nrs t ! l'"
  using assms by (auto simp: level_sorted_def intro!: sorted_nth_mono)

lemma level_less_iff:
  assumes ls: "level_sorted t" and b: "b < nboxes t" and b': "b' < nboxes t"
  shows "b < level_start_box_nrs t ! (box_levels t ! b') \<longleftrightarrow> box_levels t ! b < box_levels t ! b'"
proof
  assume "b < level_start_box_nrs t ! (box_levels t ! b')"
  show "box_levels t ! b < box_levels t ! b'"
  proof (rule ccontr)
    assume "\<not> box_levels t ! b < box_levels t ! b'"
    then have "level_start_box_nrs t ! (box_levels t ! b') \<le> level_start_box_nrs t ! (box_levels t ! b)"
      using level_sorted_box(1) [OF ls b] by (intro level_start_mono [OF ls]) simp_all
    with level_sorted_box(2) [OF ls b] \<open>b < level_start_box_nrs t ! (box_levels t ! b')\<close>
    show False by simp
  qed
next
  assume "box_levels t ! b < box_levels t ! b'"
  then have "level_start_box_nrs t ! (box_levels t ! b + 1) \<le> level_start_box_nrs t ! (box_levels t ! b')"
    using level_sorted_box(1) [OF ls b'] by (intro level_start_mono [OF ls]) simp_all
  with level_sorted_box(3) [OF ls b] show "b < level_start_box_nrs t ! (box_levels t ! b')"
    by simp
qed

lemma level_mono:
  assumes ls: "level_sorted t" and b: "b < nboxes t" and b': "b' < nboxes t" and le: "b \<le> b'"
  shows "box_levels t ! b \<le> box_levels t ! b'"
proof (rule ccontr)
  assume "\<not> box_levels t ! b \<le> box_levels t ! b'"
  then have "b' < level_start_box_nrs t ! (box_levels t ! b)"
    by (simp add: level_less_iff [OF ls b' b])
  with level_sorted_box(2) [OF ls b] le show False by simp
qed

lemma level_list_nth:
  assumes "level_list t L" "i < length L"
  shows "L ! i < nboxes t"
proof -
  have "L ! i \<in> set L"
    using assms(2) by simp
  with assms(1) show ?thesis
    by (auto simp: level_list_def)
qed

lemma level_list_sorted:
  assumes ls: "level_sorted t" and ll: "level_list t L"
  shows "sorted (map ((!) (box_levels t)) L)"
proof -
  have "box_levels t ! (L ! i) \<le> box_levels t ! (L ! j)" if "i \<le> j" "j < length L" for i j
  proof -
    have "L ! i \<le> L ! j"
    proof (cases "i = j")
      case True
      then show ?thesis by simp
    next
      case False
      with that have "L ! i < L ! j"
        using ll by (intro sorted_wrt_nth_less [of "(<)"]) (simp_all add: level_list_def)
      then show ?thesis by simp
    qed
    then show ?thesis
      using that by (intro level_mono [OF ls] level_list_nth [OF ll]) simp_all
  qed
  then show ?thesis
    by (simp add: sorted_iff_nth_mono)
qed

lemma kernel_condition:
  assumes ls: "level_sorted t" and ll: "level_list t L" and j: "1 \<le> j" "j < length L"
  shows "L ! (j - 1) < level_start_box_nrs t ! (box_levels t ! (L ! j))
       \<and> level_start_box_nrs t ! (box_levels t ! (L ! j)) \<le> L ! j
     \<longleftrightarrow> count_below ((!) (box_levels t)) L (box_levels t ! (L ! j)) = j"
proof -
  note srt = level_list_sorted [OF ls ll]
  have nb: "L ! j < nboxes t" "L ! (j - 1) < nboxes t"
    using j by (auto intro!: level_list_nth [OF ll])
  have mono: "box_levels t ! (L ! i) \<le> box_levels t ! (L ! i')" if "i \<le> i'" "i' < length L" for i i'
    using srt that by (simp add: sorted_iff_nth_mono)
  let ?l = "box_levels t ! (L ! j)"
  have "L ! (j - 1) < level_start_box_nrs t ! ?l \<and> level_start_box_nrs t ! ?l \<le> L ! j
      \<longleftrightarrow> box_levels t ! (L ! (j - 1)) < ?l"
    using level_sorted_box(2) [OF ls nb(1)] level_less_iff [OF ls nb(2) nb(1)] by simp
  also have "\<dots> \<longleftrightarrow> count_below ((!) (box_levels t)) L ?l = j"
  proof
    assume lt: "box_levels t ! (L ! (j - 1)) < ?l"
    show "count_below ((!) (box_levels t)) L ?l = j"
    proof (rule count_below_eqI)
      show "j \<le> length L" using j by simp
    next
      fix i assume "i < j"
      then have "box_levels t ! (L ! i) \<le> box_levels t ! (L ! (j - 1))"
        using j by (intro mono) simp_all
      with lt show "box_levels t ! (L ! i) < ?l" by simp
    next
      fix i assume "j \<le> i" "i < length L"
      then show "?l \<le> box_levels t ! (L ! i)" by (intro mono)
    qed
  next
    assume "count_below ((!) (box_levels t)) L ?l = j"
    then have "j - 1 < count_below ((!) (box_levels t)) L ?l"
      using j by simp
    from key_below [OF srt this] show "box_levels t ! (L ! (j - 1)) < ?l" .
  qed
  finally show ?thesis .
qed


lemma level_start_kernel:
  assumes ls: "level_sorted t" and ll: "level_list t L"
  shows "j \<le> length L \<Longrightarrow>
     length (foldl (level_start_box_nr_extractor t L) (replicate (nlevels t + 1) (length L))
               [1..<j]) = nlevels t + 1
     \<and> (\<forall>l\<le>nlevels t.
           foldl (level_start_box_nr_extractor t L) (replicate (nlevels t + 1) (length L))
             [1..<j] ! l
           = (if 1 \<le> count_below ((!) (box_levels t)) L l
                 \<and> count_below ((!) (box_levels t)) L l < j
                 \<and> box_levels t ! (L ! count_below ((!) (box_levels t)) L l) = l
              then count_below ((!) (box_levels t)) L l else length L))"
proof (induction j)
  case 0
  have "replicate (nlevels t + 1) (length L) ! l = length L" if "l \<le> nlevels t" for l
    using that by (intro nth_replicate) simp
  then show ?case by simp
next
  case (Suc j)
  let ?cnt = "count_below ((!) (box_levels t)) L"
  let ?K = "\<lambda>j. foldl (level_start_box_nr_extractor t L)
                    (replicate (nlevels t + 1) (length L)) [1..<j]"
  show ?case
  proof (cases "j = 0")
    case True
    have "replicate (nlevels t + 1) (length L) ! l = length L" if "l \<le> nlevels t" for l
      using that by (intro nth_replicate) simp
    with True show ?thesis by auto
  next
    case False
    then have j: "1 \<le> j" "j < length L"
      using Suc.prems by simp_all
    from Suc have ih_len: "length (?K j) = nlevels t + 1"
      and ih: "\<And>l. l \<le> nlevels t \<Longrightarrow> ?K j ! l
           = (if 1 \<le> ?cnt l \<and> ?cnt l < j \<and> box_levels t ! (L ! ?cnt l) = l
              then ?cnt l else length L)"
      by simp_all
    let ?l0 = "box_levels t ! (L ! j)"
    have l0: "?l0 < nlevels t"
      by (intro level_sorted_box(1) [OF ls] level_list_nth [OF ll j(2)])
    have step: "?K (Suc j) = level_start_box_nr_extractor t L (?K j) j"
      using j by simp
    have op: "level_start_box_nr_extractor t L (?K j) j
        = (if ?cnt ?l0 = j then (?K j)[?l0 := j] else ?K j)"
      unfolding level_start_box_nr_extractor_def Let_def
      using kernel_condition [OF ls ll j] by simp
    have len: "length (?K (Suc j)) = nlevels t + 1"
      unfolding step op using ih_len by simp
    have "?K (Suc j) ! l
        = (if 1 \<le> ?cnt l \<and> ?cnt l < Suc j \<and> box_levels t ! (L ! ?cnt l) = l
           then ?cnt l else length L)" if l: "l \<le> nlevels t" for l
    proof (cases "?cnt ?l0 = j \<and> l = ?l0")
      case True
      then have "?K (Suc j) ! l = j"
        unfolding step op using ih_len l by simp
      with True j show ?thesis by simp
    next
      case False
      then have "?K (Suc j) ! l = ?K j ! l"
        unfolding step op by auto
      also note ih [OF l]
      also have "(1 \<le> ?cnt l \<and> ?cnt l < j \<and> box_levels t ! (L ! ?cnt l) = l)
          \<longleftrightarrow> (1 \<le> ?cnt l \<and> ?cnt l < Suc j \<and> box_levels t ! (L ! ?cnt l) = l)"
        using False by (auto simp: less_Suc_eq)
      finally show ?thesis .
    qed
    with len show ?thesis by blast
  qed
qed

lemma postprocess_levels:
  assumes cnt_n: "cnt n = len" and mono: "\<And>l. l < n \<Longrightarrow> cnt l \<le> cnt (Suc l)"
    and len: "length r2 = n + 1"
    and top: "r2 ! n = len"
    and entry: "\<And>l. l < n \<Longrightarrow> min (r2 ! l) (cnt (Suc l)) = cnt l"
  shows "l \<le> n \<Longrightarrow>
     snd (foldl postprocess_level (r2, len) (rev [l..<n])) = cnt l
     \<and> length (fst (foldl postprocess_level (r2, len) (rev [l..<n]))) = n + 1
     \<and> (\<forall>l'. l \<le> l' \<and> l' \<le> n \<longrightarrow>
           fst (foldl postprocess_level (r2, len) (rev [l..<n])) ! l' = cnt l')
     \<and> (\<forall>l'<l. fst (foldl postprocess_level (r2, len) (rev [l..<n])) ! l' = r2 ! l')"
proof (induction "n - l" arbitrary: l)
  case 0
  then have "l = n" by simp
  moreover have "r2 ! l' = cnt l'" if "n \<le> l'" "l' \<le> n" for l'
    using that top cnt_n by (simp add: le_antisym)
  ultimately show ?case
    using cnt_n len by auto
next
  case (Suc d)
  then have l: "l < n" and d: "d = n - Suc l" and sl: "Suc l \<le> n"
    by simp_all
  let ?s = "foldl postprocess_level (r2, len) (rev [Suc l..<n])"
  from Suc.hyps(1) [OF d sl] have
    ih1: "snd ?s = cnt (Suc l)" and ih2: "length (fst ?s) = n + 1"
    and ih3: "\<And>l'. Suc l \<le> l' \<Longrightarrow> l' \<le> n \<Longrightarrow> fst ?s ! l' = cnt l'"
    and ih4: "\<And>l'. l' < Suc l \<Longrightarrow> fst ?s ! l' = r2 ! l'"
    by simp_all
  have unfold: "foldl postprocess_level (r2, len) (rev [l..<n]) = postprocess_level ?s l"
    using l by (simp add: upt_conv_Cons)
  have prev: "min (fst ?s ! l) (snd ?s) = cnt l"
    using ih1 ih4 [of l] entry [OF l] by simp
  have "snd (postprocess_level ?s l) = cnt l"
    and "fst (postprocess_level ?s l) = (fst ?s)[l := cnt l]"
    using prev by (simp_all add: postprocess_level_def Let_def)
  then show ?case
    unfolding unfold using ih2 ih3 ih4 l
    by (auto simp: nth_list_update)
qed


text \<open>
  The level start of level \<open>l\<close> is the number of boxes of the list on levels below
  \<open>l\<close>.
\<close>

lemma extract_level_start_box_nrs_count:
  assumes ls: "level_sorted t" and ll: "level_list t L"
  shows "length (extract_level_start_box_nrs t L) = nlevels t + 1"
    and "l \<le> nlevels t \<Longrightarrow>
           extract_level_start_box_nrs t L ! l = count_below ((!) (box_levels t)) L l"
proof -
  let ?n = "nlevels t"
  let ?cnt = "count_below ((!) (box_levels t)) L"
  let ?r1 = "foldl (level_start_box_nr_extractor t L) (replicate (?n + 1) (length L))
               [1..<length L]"
  let ?r2 = "?r1[0 := 0]"
  note srt = level_list_sorted [OF ls ll]
  from level_start_kernel [OF ls ll, of "length L"] have
    len1: "length ?r1 = ?n + 1"
    and r1: "\<And>l. l \<le> ?n \<Longrightarrow> ?r1 ! l
           = (if 1 \<le> ?cnt l \<and> ?cnt l < length L \<and> box_levels t ! (L ! ?cnt l) = l
              then ?cnt l else length L)"
    by simp_all
  have "\<forall>b\<in>set L. box_levels t ! b < ?n"
    using ll level_sorted_box(1) [OF ls] by (auto simp: level_list_def)
  then have cnt_n: "?cnt ?n = length L"
    by (rule count_below_all)
  have top: "?r2 ! ?n = length L"
  proof (cases "?n = 0")
    case True
    with cnt_n len1 show ?thesis by simp
  next
    case False
    then have "?r2 ! ?n = ?r1 ! ?n" by simp
    with r1 [of ?n] cnt_n show ?thesis by simp
  qed
  have entry: "min (?r2 ! l) (?cnt (Suc l)) = ?cnt l" if l: "l < ?n" for l
  proof (cases "l = 0")
    case True
    with len1 show ?thesis by simp
  next
    case False
    then have r2: "?r2 ! l = ?r1 ! l" by simp
    show ?thesis
    proof (cases "1 \<le> ?cnt l \<and> ?cnt l < length L \<and> box_levels t ! (L ! ?cnt l) = l")
      case True
      then have "?r2 ! l = ?cnt l"
        using r1 [of l] l r2 by simp
      with count_below_mono [of l "Suc l" "(!) (box_levels t)" L] show ?thesis
        by simp
    next
      case nocond: False
      then have val: "?r2 ! l = length L"
        using r1 [of l] l r2 by simp
      have "?cnt (Suc l) = ?cnt l"
      proof (rule ccontr)
        assume "?cnt (Suc l) \<noteq> ?cnt l"
        with count_below_mono [of l "Suc l" "(!) (box_levels t)" L]
        have lt: "?cnt l < ?cnt (Suc l)" by simp
        then have inb: "?cnt l < length L"
          using count_below_le [of "(!) (box_levels t)" L "Suc l"] by simp
        from key_below [OF srt lt] key_not_below [OF srt order_refl inb]
        have lev: "box_levels t ! (L ! ?cnt l) = l" by simp
        with nocond inb have "?cnt l = 0" by simp
        moreover have "L \<noteq> []" using inb by auto
        ultimately show False
          using lev ll \<open>l \<noteq> 0\<close> by (simp add: level_list_def)
      qed
      with val count_below_le [of "(!) (box_levels t)" L "Suc l"] show ?thesis
        by simp
    qed
  qed
  have len2: "length ?r2 = ?n + 1"
    using len1 by simp
  from postprocess_levels [of ?cnt ?n "length L" ?r2 0, OF cnt_n _ len2 top entry]
    count_below_mono [of _ _ "(!) (box_levels t)" L]
  have "length (fst (foldl postprocess_level (?r2, length L) (rev [0..<?n]))) = ?n + 1"
    and "\<forall>l'. 0 \<le> l' \<and> l' \<le> ?n \<longrightarrow>
           fst (foldl postprocess_level (?r2, length L) (rev [0..<?n])) ! l' = ?cnt l'"
    by simp_all
  then show "length (extract_level_start_box_nrs t L) = nlevels t + 1"
    and "l \<le> nlevels t \<Longrightarrow> extract_level_start_box_nrs t L ! l = ?cnt l"
    by (simp_all add: extract_level_start_box_nrs_def Let_def)
qed

lemma source_parent_boxes_filter:
  "concat (map (generate_source_parent_boxes t) [0..<nboxes t])
     = filter (\<lambda>b. has_flag t b BOX_HAS_CHILD_SOURCES) [0..<nboxes t]"
proof -
  have "generate_source_parent_boxes t
      = (\<lambda>b. if has_flag t b BOX_HAS_CHILD_SOURCES then [b] else [])"
    by (rule ext) (simp add: generate_source_parent_boxes_def)
  then show ?thesis
    by (simp add: concat_map_if [where f = "\<lambda>b. b", simplified])
qed

lemma root_has_child_sources:
  assumes st: "tree_structure t" and cl: "source_parents_closed t"
    and b: "b < nboxes t" "has_flag t b BOX_HAS_CHILD_SOURCES"
  shows "has_flag t 0 BOX_HAS_CHILD_SOURCES"
proof -
  have "has_flag t (ancestor t b k) BOX_HAS_CHILD_SOURCES" for k
  proof (induction k)
    case 0
    then show ?case using b by simp
  next
    case (Suc k)
    with cl ancestor_less [OF st b(1), of k] show ?case
      by (simp add: source_parents_closed_def)
  qed
  then show ?thesis
    using ancestor_root [OF st b(1)] by metis
qed

lemma source_parent_boxes_level_list:
  assumes st: "tree_structure t" and cl: "source_parents_closed t"
  shows "level_list t (concat (map (generate_source_parent_boxes t) [0..<nboxes t]))"
proof -
  let ?P = "\<lambda>b. has_flag t b BOX_HAS_CHILD_SOURCES"
  let ?L = "filter ?P [0..<nboxes t]"
  have "sorted_wrt (<) ?L"
    by (intro sorted_wrt_filter) simp
  moreover have "set ?L \<subseteq> {0..<nboxes t}"
    by auto
  moreover have "box_levels t ! (?L ! 0) = 0" if "?L \<noteq> []"
  proof -
    from that obtain b where "b < nboxes t" "?P b"
      by (auto simp: filter_empty_conv)
    then have "?P 0"
      by (rule root_has_child_sources [OF st cl])
    moreover have "[0..<nboxes t] = 0 # [1..<nboxes t]"
      using tree_structure_root(1) [OF st] by (simp add: upt_conv_Cons)
    ultimately have "?L ! 0 = 0"
      by simp
    then show ?thesis
      using tree_structure_root(2) [OF st] by simp
  qed
  ultimately show ?thesis
    by (simp add: level_list_def source_parent_boxes_filter)
qed

text \<open>
  C7. For a tree whose boxes are sorted by level and a list of boxes in increasing order
  that is empty or starts on level 0, with or without boxes on each level, the level
  starts of the list begin with 0, end with the length of the list, do not decrease, each
  slice between two consecutive level starts has boxes of that level only, and the slices
  of all levels together are the list. The level start of a level without boxes is that
  of the next level, and its slice is empty. The list of source parent boxes is such a
  list (\<open>source_parent_boxes_level_list\<close>), and the driver computes the level starts of
  the traversal from it (\<open>FMMTraversalBuilder_call_level_start\<close>).
\<close>

theorem level_start_round_trip:
  assumes "level_sorted t" and "level_list t box_list"
  shows "let level_start = extract_level_start_box_nrs t box_list
         in length level_start = nlevels t + 1
          \<and> level_start ! 0 = 0
          \<and> level_start ! nlevels t = length box_list
          \<and> (\<forall>l<nlevels t. level_start ! l \<le> level_start ! (l + 1))
          \<and> (\<forall>l<nlevels t. \<forall>b\<in>set (slice box_list (level_start ! l) (level_start ! (l + 1))).
                box_levels t ! b = l)
          \<and> (\<forall>l<nlevels t. (\<forall>b\<in>set box_list. box_levels t ! b \<noteq> l) \<longrightarrow>
                level_start ! l = level_start ! (l + 1))
          \<and> concat (map (\<lambda>l. slice box_list (level_start ! l) (level_start ! (l + 1)))
                       [0..<nlevels t]) = box_list"
proof -
  let ?L = "box_list"
  let ?r = "extract_level_start_box_nrs t ?L"
  let ?cnt = "count_below ((!) (box_levels t)) ?L"
  note ll = assms(2)
  note srt = level_list_sorted [OF assms(1) ll]
  note cnt = extract_level_start_box_nrs_count [OF assms(1) ll]
  have "\<forall>b\<in>set ?L. box_levels t ! b < nlevels t"
    using ll level_sorted_box(1) [OF assms(1)] by (auto simp: level_list_def)
  then have cnt_n: "?cnt (nlevels t) = length ?L"
    by (rule count_below_all)
  have r0: "?r ! 0 = 0"
    using cnt(2) [of 0] by simp
  have rn: "?r ! nlevels t = length ?L"
    using cnt(2) [of "nlevels t"] cnt_n by simp
  have mono: "?r ! l \<le> ?r ! (l + 1)" if "l < nlevels t" for l
    using that cnt(2) [of l] cnt(2) [of "l + 1"]
      count_below_mono [of l "l + 1" "(!) (box_levels t)" ?L]
    by simp
  have keys: "box_levels t ! b = l"
    if "l < nlevels t" "b \<in> set (slice ?L (?r ! l) (?r ! (l + 1)))" for l b
    using that cnt(2) [of l] cnt(2) [of "l + 1"] slice_keys [OF srt, of b l]
    by simp
  have gap: "?r ! l = ?r ! (l + 1)"
    if l: "l < nlevels t" and none: "\<forall>b\<in>set ?L. box_levels t ! b \<noteq> l" for l
  proof -
    have "(box_levels t ! b < l) = (box_levels t ! b < Suc l)" if "b \<in> set ?L" for b
      using that none by (auto simp: less_Suc_eq)
    then have "filter (\<lambda>b. box_levels t ! b < l) ?L = filter (\<lambda>b. box_levels t ! b < Suc l) ?L"
      by (intro filter_cong) simp_all
    then have "?cnt l = ?cnt (Suc l)"
      by (simp add: count_below_def)
    then show ?thesis
      using l cnt(2) [of l] cnt(2) [of "l + 1"] by simp
  qed
  have "concat (map (\<lambda>l. slice ?L (?r ! l) (?r ! Suc l)) [0..<nlevels t])
      = take (?r ! nlevels t) ?L"
    using mono r0 by (intro concat_slices) simp_all
  then have cat: "concat (map (\<lambda>l. slice ?L (?r ! l) (?r ! (l + 1))) [0..<nlevels t]) = ?L"
    using rn by simp
  show ?thesis
    unfolding Let_def using cnt(1) r0 rn mono keys gap cat by blast
qed

text \<open>
  In \<open>refined_tree\<close> the list of source parent boxes is \<open>[0, 1, 2]\<close>, with boxes on
  the levels 0 and 1. The list \<open>[0, 5, 6]\<close> has no box on level 1: the kernel leaves
  the entry of level 1 at the length of the list, 3, and the pass from the top level down
  sets it to the level start of level 2.
\<close>

lemma refined_tree_level_sorted:
  "level_sorted refined_tree \<and> source_parents_closed refined_tree"
  by code_simp

lemma refined_tree_level_start:
  "concat (map (generate_source_parent_boxes refined_tree) [0..<nboxes refined_tree]) = [0, 1, 2]
   \<and> extract_level_start_box_nrs refined_tree [0, 1, 2] = [0, 1, 3, 3]"
  by code_simp

lemma refined_tree_level_start_gap:
  "level_list refined_tree [0, 5, 6]
   \<and> foldl (level_start_box_nr_extractor refined_tree [0, 5, 6]) (replicate 4 3) [1..<3]
       = [3, 3, 1, 3]
   \<and> extract_level_start_box_nrs refined_tree [0, 5, 6] = [0, 1, 1, 3]"
  by code_simp

theorem level_start_round_trip_witness:
  "level_sorted refined_tree
   \<and> level_list refined_tree [0, 5, 6]
   \<and> extract_level_start_box_nrs refined_tree [0, 5, 6] = [0, 1, 1, 3]
   \<and> concat (map (\<lambda>l. slice [0, 5, 6 :: nat] ([0, 1, 1, 3] ! l) ([0, 1, 1, 3] ! (l + 1)))
              [0..<nlevels refined_tree]) = [0, 5, 6]
   \<and> level_list refined_tree
        (concat (map (generate_source_parent_boxes refined_tree) [0..<nboxes refined_tree]))
   \<and> concat (map (generate_source_parent_boxes refined_tree) [0..<nboxes refined_tree]) = [0, 1, 2]
   \<and> extract_level_start_box_nrs refined_tree [0, 1, 2] = [0, 1, 3, 3]
   \<and> concat (map (\<lambda>l. slice [0, 1, 2 :: nat] ([0, 1, 3, 3] ! l) ([0, 1, 3, 3] ! (l + 1)))
              [0..<nlevels refined_tree]) = [0, 1, 2]"
proof -
  note ls = conjunct1 [OF refined_tree_level_sorted]
  note gap = conjunct1 [OF refined_tree_level_start_gap]
  have ll: "level_list refined_tree
      (concat (map (generate_source_parent_boxes refined_tree) [0..<nboxes refined_tree]))"
    by (rule source_parent_boxes_level_list [OF conjunct1 [OF refined_tree_wf]
          conjunct2 [OF refined_tree_level_sorted]])
  from level_start_round_trip [OF ls gap]
  have "concat (map (\<lambda>l. slice [0, 5, 6 :: nat] ([0, 1, 1, 3] ! l) ([0, 1, 1, 3] ! (l + 1)))
              [0..<nlevels refined_tree]) = [0, 5, 6]"
    unfolding Let_def using refined_tree_level_start_gap by simp
  moreover from level_start_round_trip [OF ls ll]
  have "concat (map (\<lambda>l. slice [0, 1, 2 :: nat] ([0, 1, 3, 3] ! l) ([0, 1, 3, 3] ! (l + 1)))
              [0..<nlevels refined_tree]) = [0, 1, 2]"
    unfolding Let_def using refined_tree_level_start by simp
  ultimately show ?thesis
    using ls ll refined_tree_level_start_gap refined_tree_level_start by simp
qed

end
